theory Spec2Isabelle
  imports
    Main
    "HOL-Library.Word"
    "HOL-Library.Multiset"
    "HOL-Library.AList"
    "HOL-Library.List_Lexorder"
    "HOL-Library.Product_Lexorder"
    "HOL-Library.Sublist"
begin

section \<open>Data model\<close>

text \<open>
  A Python \<open>str\<close> is a sequence of Unicode code points; a character is a \<open>str\<close> of
  length one (iterating a \<open>str\<close> and \<open>read(1)\<close> both yield such strings).  A
  \<open>bytes\<close> value is a list of 8-bit words, a \<open>bitarray\<close> a list of bits.
\<close>

type_synonym str = "nat list"
type_synonym byte = "8 word"
type_synonym bitarray = "bool list"

text \<open>
  Modelled from the spec: the exception \<open>CompressionMethodError\<close>, the typed format
  error that carries a description.  \<open>huffman.py\<close> imports it from the interface
  module, whose file does not declare it.  The other constructors are the built-in
  exceptions that the codec and the library calls it makes can raise; the ones built
  with a message carry it.
\<close>

datatype error =
    ValueError string
  | IndexError
  | KeyError
  | OverflowError
  | UnicodeEncodeError
  | UnicodeDecodeError
  | CompressionMethodError string

text \<open>
  \<open>class HuffmanTreeNode\<close>: the constructor's arguments \<open>char\<close>, \<open>freq\<close>, \<open>left\<close>,
  \<open>right\<close> and the attribute \<open>code\<close>, which \<open>__init__\<close> sets to the empty bitarray.
\<close>

datatype HuffmanTreeNode =
  HuffmanTreeNode (char: str) (freq: int)
    (left: "HuffmanTreeNode option") (right: "HuffmanTreeNode option") (code: bitarray)

definition new_node :: "str \<Rightarrow> int \<Rightarrow> HuffmanTreeNode option \<Rightarrow> HuffmanTreeNode option \<Rightarrow> HuffmanTreeNode" where
  "new_node c f l r = HuffmanTreeNode c f l r []"

text \<open>\<open>__lt__\<close>: nodes are compared by frequency only.\<close>

definition lt :: "HuffmanTreeNode \<Rightarrow> HuffmanTreeNode \<Rightarrow> bool" where
  "lt self other = (freq self < freq other)"

text \<open>
  \<open>code_tree\<close> writes a code into every node (left child gets bit 1, right child bit 0);
  \<open>code = code or bitarray()\<close> leaves a given code unchanged, the empty one included.
\<close>

fun code_tree :: "HuffmanTreeNode \<Rightarrow> bitarray \<Rightarrow> HuffmanTreeNode" where
  "code_tree (HuffmanTreeNode c f (Some l) (Some r) cd) cd' =
     HuffmanTreeNode c f (Some (code_tree l (cd' @ [True]))) (Some (code_tree r (cd' @ [False]))) cd'"
| "code_tree (HuffmanTreeNode c f l r cd) cd' = HuffmanTreeNode c f l r cd'"

section \<open>The priority queue (\<open>heapq\<close> on a list of nodes)\<close>

text \<open>
  \<open>heappush\<close> and \<open>heappop\<close> of the standard library, which uses only \<open>__lt__\<close>.
  \<open>_siftdown\<close> moves parents down along the path to \<open>startpos\<close> until \<open>newitem\<close>
  fits; \<open>_siftup\<close> bubbles the smaller child up until a leaf and then sifts the item
  down.  Every index read below is in range at every call made by \<open>heappush\<close> and
  \<open>heappop\<close>.
\<close>

function siftdown_loop :: "HuffmanTreeNode list \<Rightarrow> HuffmanTreeNode \<Rightarrow> nat \<Rightarrow> nat \<Rightarrow> HuffmanTreeNode list" where
  "siftdown_loop heap newitem startpos pos =
     (if pos > startpos then
        (let parentpos = (pos - 1) div 2; parent = heap ! parentpos in
         if lt newitem parent then siftdown_loop (heap[pos := parent]) newitem startpos parentpos
         else heap[pos := newitem])
      else heap[pos := newitem])"
  by pat_completeness auto
termination
  by (relation "measure (\<lambda>(heap, newitem, startpos, pos). pos)") auto

definition siftdown :: "HuffmanTreeNode list \<Rightarrow> nat \<Rightarrow> nat \<Rightarrow> HuffmanTreeNode list" where
  "siftdown heap startpos pos = siftdown_loop heap (heap ! pos) startpos pos"

definition smaller_child :: "HuffmanTreeNode list \<Rightarrow> nat \<Rightarrow> nat \<Rightarrow> nat" where
  "smaller_child heap endpos childpos =
     (let rightpos = childpos + 1 in
      if rightpos < endpos \<and> \<not> lt (heap ! childpos) (heap ! rightpos) then rightpos else childpos)"

function siftup_loop :: "HuffmanTreeNode list \<Rightarrow> nat \<Rightarrow> nat \<Rightarrow> HuffmanTreeNode list \<times> nat" where
  "siftup_loop heap endpos pos =
     (let childpos = 2 * pos + 1 in
      if childpos < endpos then
        (let childpos' = smaller_child heap endpos childpos in
         siftup_loop (heap[pos := heap ! childpos']) endpos childpos')
      else (heap, pos))"
  by pat_completeness auto
termination
  by (relation "measure (\<lambda>(heap, endpos, pos). endpos - pos)")
     (auto simp: smaller_child_def Let_def)

definition siftup :: "HuffmanTreeNode list \<Rightarrow> nat \<Rightarrow> HuffmanTreeNode list" where
  "siftup heap pos =
     (let endpos = length heap; startpos = pos; newitem = heap ! pos in
      case siftup_loop heap endpos pos of
        (heap', pos') \<Rightarrow> siftdown (heap'[pos' := newitem]) startpos pos')"

definition heappush :: "HuffmanTreeNode list \<Rightarrow> HuffmanTreeNode \<Rightarrow> HuffmanTreeNode list" where
  "heappush heap item = (let heap' = heap @ [item] in siftdown heap' 0 (length heap' - 1))"

definition heappop :: "HuffmanTreeNode list \<Rightarrow> error + (HuffmanTreeNode \<times> HuffmanTreeNode list)" where
  "heappop heap =
     (if heap = [] then Inl IndexError
      else
        (let lastelt = last heap; heap' = butlast heap in
         if heap' \<noteq> [] then
           (let returnitem = heap' ! 0 in Inr (returnitem, siftup (heap'[0 := lastelt]) 0))
         else Inr (lastelt, heap')))"

declare siftdown_loop.simps [simp del] siftup_loop.simps [simp del]

subsection \<open>The queue operations keep the multiset of nodes\<close>

lemma mset_move_hole:
  assumes "i < length xs" "j < length xs"
  shows "mset (xs[i := xs ! j, j := x]) = mset (xs[i := x])"
proof (cases "i = j")
  case True
  then show ?thesis by simp
next
  case False
  let ?ys = "xs[i := x]"
  have "mset (?ys[j := ?ys ! i, i := ?ys ! j]) = mset ?ys"
    using assms by (intro mset_swap) simp_all
  moreover have "?ys[j := ?ys ! i, i := ?ys ! j] = xs[i := xs ! j, j := x]"
    using False assms by (simp add: list_eq_iff_nth_eq nth_list_update)
  ultimately show ?thesis by simp
qed

lemma siftdown_loop_mset:
  "pos < length heap \<Longrightarrow>
   mset (siftdown_loop heap newitem startpos pos) = mset (heap[pos := newitem])"
proof (induction heap newitem startpos pos rule: siftdown_loop.induct)
  case (1 heap newitem startpos pos)
  show ?case
  proof (cases "pos > startpos \<and> lt newitem (heap ! ((pos - 1) div 2))")
    case True
    have p: "(pos - 1) div 2 < length heap" using "1.prems" by simp
    have "mset (siftdown_loop (heap[pos := heap ! ((pos - 1) div 2)]) newitem startpos ((pos - 1) div 2))
        = mset (heap[pos := heap ! ((pos - 1) div 2), (pos - 1) div 2 := newitem])"
      using "1.IH"[OF _ refl refl] True p by simp
    also have "\<dots> = mset (heap[pos := newitem])"
      using mset_move_hole[OF "1.prems" p] by simp
    finally show ?thesis using True by (subst siftdown_loop.simps) (simp add: Let_def)
  next
    case False
    then show ?thesis by (subst siftdown_loop.simps) (auto simp add: Let_def)
  qed
qed

lemma smaller_child_bounds:
  "childpos < endpos \<Longrightarrow>
   childpos \<le> smaller_child heap endpos childpos \<and> smaller_child heap endpos childpos < endpos"
  by (simp add: smaller_child_def Let_def)

lemma siftup_loop_props:
  "siftup_loop heap endpos pos = (heap', pos') \<Longrightarrow> pos < length heap \<Longrightarrow> endpos \<le> length heap \<Longrightarrow>
     pos' < length heap \<and> length heap' = length heap \<and>
     mset (heap'[pos' := x]) = mset (heap[pos := x])"
proof (induction heap endpos pos arbitrary: heap' pos' rule: siftup_loop.induct)
  case (1 heap endpos pos)
  show ?case
  proof (cases "2 * pos + 1 < endpos")
    case True
    define c where "c = smaller_child heap endpos (2 * pos + 1)"
    have cb: "c < endpos" "2 * pos + 1 \<le> c"
      using smaller_child_bounds[OF True] by (simp_all add: c_def)
    have step: "siftup_loop (heap[pos := heap ! c]) endpos c = (heap', pos')"
      using "1.prems"(1) True by (subst (asm) siftup_loop.simps) (simp add: Let_def c_def)
    have cl: "c < length heap" using cb "1.prems" by simp
    have ih: "pos' < length heap \<and> length heap' = length heap \<and>
        mset (heap'[pos' := x]) = mset (heap[pos := heap ! c, c := x])"
      using "1.IH"[OF refl True refl, folded c_def, OF step] cl "1.prems" by simp
    moreover have "mset (heap[pos := heap ! c, c := x]) = mset (heap[pos := x])"
      using mset_move_hole[OF "1.prems"(2) cl] .
    ultimately show ?thesis by simp
  next
    case False
    then show ?thesis
      using "1.prems" by (subst (asm) siftup_loop.simps) (auto simp: Let_def)
  qed
qed

lemma siftdown_mset: "pos < length heap \<Longrightarrow> mset (siftdown heap startpos pos) = mset heap"
  by (simp add: siftdown_def siftdown_loop_mset)

lemma siftup_mset:
  assumes p: "pos < length heap"
  shows "mset (siftup heap pos) = mset heap"
proof -
  obtain heap' pos' where s: "siftup_loop heap (length heap) pos = (heap', pos')" by force
  from siftup_loop_props[OF s p, of "heap ! pos"]
  have a: "pos' < length heap" "length heap' = length heap"
    "mset (heap'[pos' := heap ! pos]) = mset heap"
    by simp_all
  show ?thesis using a s by (simp add: siftup_def Let_def siftdown_mset)
qed

lemma heappush_mset: "mset (heappush heap item) = add_mset item (mset heap)"
  by (simp add: heappush_def Let_def siftdown_mset)

lemma heappop_mset:
  assumes h: "heappop heap = Inr (x, heap')"
  shows "mset heap = add_mset x (mset heap')"
proof -
  from h have ne: "heap \<noteq> []" by (auto simp: heappop_def)
  then obtain ys y where hy: "heap = ys @ [y]" by (metis rev_exhaust)
  show ?thesis
  proof (cases "ys = []")
    case True
    then show ?thesis using h hy by (simp add: heappop_def Let_def)
  next
    case False
    then obtain z zs where ys: "ys = z # zs" by (cases ys) auto
    have "x = z" "heap' = siftup (y # zs) 0"
      using h hy ys by (simp_all add: heappop_def Let_def)
    then show ?thesis using hy ys by (simp add: siftup_mset)
  qed
qed

lemma heappop_nonempty: "heap \<noteq> [] \<Longrightarrow> \<exists>x heap'. heappop heap = Inr (x, heap')"
  by (simp add: heappop_def Let_def)

lemma heappush_length: "length (heappush heap item) = Suc (length heap)"
  using arg_cong[OF heappush_mset, of size heap item] by simp

lemma heappop_length: "heappop heap = Inr (x, heap') \<Longrightarrow> length heap = Suc (length heap')"
  using arg_cong[OF heappop_mset, of heap x heap' size] by simp

section \<open>Building the tree\<close>

text \<open>
  The merge loop of \<open>_build_huffman_tree\<close>: while more than one tree is left, pop two
  (the first popped becomes the left child) and push their parent.
\<close>

function merge_trees :: "HuffmanTreeNode list \<Rightarrow> error + HuffmanTreeNode list" where
  "merge_trees nodes =
     (if length nodes > 1 then
        (case heappop nodes of
           Inl e \<Rightarrow> Inl e
         | Inr (l, nodes1) \<Rightarrow>
             (case heappop nodes1 of
                Inl e \<Rightarrow> Inl e
              | Inr (r, nodes2) \<Rightarrow>
                  merge_trees
                    (heappush nodes2
                       (new_node (char l @ char r) (freq l + freq r) (Some l) (Some r)))))
      else Inr nodes)"
  by pat_completeness auto
termination
  by (relation "measure length") (auto simp: heappush_length dest!: heappop_length)

declare merge_trees.simps [simp del]

definition build_huffman_tree :: "(int \<times> str) list \<Rightarrow> error + HuffmanTreeNode option" where
  "build_huffman_tree freq_list =
     (if length freq_list = 0 then Inr None
      else
        (let nodes = foldl (\<lambda>nodes (f, c). heappush nodes (new_node c f None None)) [] freq_list in
         case merge_trees nodes of
           Inl e \<Rightarrow> Inl e
         | Inr nodes' \<Rightarrow>
             (case heappop nodes' of
                Inl e \<Rightarrow> Inl e
              | Inr (huffman_tree, nodes'') \<Rightarrow> Inr (Some huffman_tree))))"

section \<open>Counting frequencies\<close>

text \<open>
  Input streams hold their content and a read position.  \<open>read()\<close> returns what is
  left and moves to the end, \<open>read(n)\<close> returns at most \<open>n\<close> items, \<open>seek(n, 0)\<close> sets
  the position (also past the end).
\<close>

record 'a stream =
  content :: "'a list"
  position :: nat

type_synonym TextIO = "nat stream"
type_synonym BinaryIO = "byte stream"

definition seek :: "'a stream \<Rightarrow> nat \<Rightarrow> 'a stream" where
  "seek s n = s\<lparr>position := n\<rparr>"

definition read_all :: "'a stream \<Rightarrow> 'a list \<times> 'a stream" where
  "read_all s =
     (let xs = drop (position s) (content s) in (xs, s\<lparr>position := position s + length xs\<rparr>))"

definition read_n :: "'a stream \<Rightarrow> nat \<Rightarrow> 'a list \<times> 'a stream" where
  "read_n s n =
     (let xs = take n (drop (position s) (content s)) in
      (xs, s\<lparr>position := position s + length xs\<rparr>))"

text \<open>
  \<open>freq_dict\<close> is a dictionary in insertion order: an association list in which a
  known key is updated in place and a new key is appended.
\<close>

fun count_loop :: "str \<Rightarrow> (str \<times> int) list \<Rightarrow> (str \<times> int) list" where
  "count_loop [] freq_dict = freq_dict"
| "count_loop (c # cs) freq_dict =
     count_loop cs
       (AList.update [c] ((case map_of freq_dict [c] of None \<Rightarrow> 0 | Some f \<Rightarrow> f) + 1) freq_dict)"

text \<open>
  \<open>list.sort(reverse=True)\<close> on tuples: the list is reversed, sorted stably in
  ascending order (the frequency first, then the character string) and reversed again.
\<close>

definition sort_reverse :: "(int \<times> str) list \<Rightarrow> (int \<times> str) list" where
  "sort_reverse xs = rev (sort (rev xs))"

definition count_frequencies :: "TextIO \<Rightarrow> (int \<times> str) list \<times> TextIO" where
  "count_frequencies text_in =
     (case read_all text_in of
        (s, text_in') \<Rightarrow>
          (let freq_dict = count_loop s [];
               freq_list = map (\<lambda>(c, f). (f, c)) freq_dict
           in (sort_reverse freq_list, text_in')))"

section \<open>Codes\<close>

text \<open>
  \<open>dict[str, bitarray | None]\<close>: a missing key is \<open>None\<close>, a key bound to Python's
  \<open>None\<close> is \<open>Some None\<close>.  \<open>traverse\<close> appends bit 0 on the way to the left child and
  bit 1 on the way to the right child and stores the path at every node that does not
  have both children.
\<close>

type_synonym codes = "str \<rightharpoonup> bitarray option"

fun traverse :: "HuffmanTreeNode \<Rightarrow> bitarray \<Rightarrow> codes \<Rightarrow> codes" where
  "traverse (HuffmanTreeNode c f (Some l) (Some r) cd) cd' codes =
     traverse r (cd' @ [True]) (traverse l (cd' @ [False]) codes)"
| "traverse (HuffmanTreeNode c f l r cd) cd' codes = codes(c \<mapsto> Some cd')"

definition get_codes :: "HuffmanTreeNode \<Rightarrow> HuffmanTreeNode \<times> codes" where
  "get_codes huffman_tree =
     (let huffman_tree' = code_tree huffman_tree [] in
      (huffman_tree', traverse huffman_tree' [] Map.empty))"

fun encode_loop :: "str \<Rightarrow> codes \<Rightarrow> bitarray \<Rightarrow> error + bitarray" where
  "encode_loop [] huffman_codes result = Inr result"
| "encode_loop (c # cs) huffman_codes result =
     (case huffman_codes [c] of
        None \<Rightarrow> Inl KeyError
      | Some None \<Rightarrow> Inl (ValueError ''Huffman code for character missing.'')
      | Some (Some cd) \<Rightarrow> encode_loop cs huffman_codes (result @ cd))"

definition encode_text :: "TextIO \<Rightarrow> codes \<Rightarrow> error + bitarray" where
  "encode_text text_in huffman_codes =
     encode_loop (drop (position text_in) (content text_in)) huffman_codes []"

section \<open>UTF-8\<close>

text \<open>
  \<open>str.encode("utf-8")\<close> and \<open>bytes.decode("utf-8")\<close> with the default strict error
  handling: surrogate code points cannot be encoded, and the decoder accepts exactly the
  shortest-form encodings of the scalar values up to U+10FFFF.
\<close>

definition utf8_encode_char :: "nat \<Rightarrow> error + byte list" where
  "utf8_encode_char c =
     (if c < 0x80 then Inr [of_nat c]
      else if c < 0x800 then Inr [of_nat (0xC0 + c div 64), of_nat (0x80 + c mod 64)]
      else if c < 0x10000 then
        (if 0xD800 \<le> c \<and> c < 0xE000 then Inl UnicodeEncodeError
         else Inr [of_nat (0xE0 + c div 4096), of_nat (0x80 + c div 64 mod 64),
                   of_nat (0x80 + c mod 64)])
      else if c < 0x110000 then
        Inr [of_nat (0xF0 + c div 262144), of_nat (0x80 + c div 4096 mod 64),
             of_nat (0x80 + c div 64 mod 64), of_nat (0x80 + c mod 64)]
      else Inl UnicodeEncodeError)"

fun utf8_encode :: "str \<Rightarrow> error + byte list" where
  "utf8_encode [] = Inr []"
| "utf8_encode (c # cs) =
     (case utf8_encode_char c of
        Inl e \<Rightarrow> Inl e
      | Inr bs \<Rightarrow> (case utf8_encode cs of Inl e \<Rightarrow> Inl e | Inr rest \<Rightarrow> Inr (bs @ rest)))"

definition continuation :: "byte \<Rightarrow> bool" where
  "continuation b = (0x80 \<le> unat b \<and> unat b < 0xC0)"

definition cons_char :: "nat \<Rightarrow> error + str \<Rightarrow> error + str" where
  "cons_char c r = (case r of Inl e \<Rightarrow> Inl e | Inr cs \<Rightarrow> Inr (c # cs))"

fun utf8_decode :: "byte list \<Rightarrow> error + str" where
  "utf8_decode [] = Inr []"
| "utf8_decode (b0 # bs) =
     (let n0 = unat b0 in
      if n0 < 0x80 then cons_char n0 (utf8_decode bs)
      else if 0xC2 \<le> n0 \<and> n0 < 0xE0 then
        (case bs of
           b1 # bs1 \<Rightarrow>
             if continuation b1
             then cons_char ((n0 - 0xC0) * 64 + (unat b1 - 0x80)) (utf8_decode bs1)
             else Inl UnicodeDecodeError
         | _ \<Rightarrow> Inl UnicodeDecodeError)
      else if 0xE0 \<le> n0 \<and> n0 < 0xF0 then
        (case bs of
           b1 # b2 # bs2 \<Rightarrow>
             (let c = (n0 - 0xE0) * 4096 + (unat b1 - 0x80) * 64 + (unat b2 - 0x80) in
              if continuation b1 \<and> continuation b2 \<and> 0x800 \<le> c \<and> \<not> (0xD800 \<le> c \<and> c < 0xE000)
              then cons_char c (utf8_decode bs2)
              else Inl UnicodeDecodeError)
         | _ \<Rightarrow> Inl UnicodeDecodeError)
      else if 0xF0 \<le> n0 \<and> n0 < 0xF5 then
        (case bs of
           b1 # b2 # b3 # bs3 \<Rightarrow>
             (let c = (n0 - 0xF0) * 262144 + (unat b1 - 0x80) * 4096
                      + (unat b2 - 0x80) * 64 + (unat b3 - 0x80) in
              if continuation b1 \<and> continuation b2 \<and> continuation b3
                 \<and> 0x10000 \<le> c \<and> c < 0x110000
              then cons_char c (utf8_decode bs3)
              else Inl UnicodeDecodeError)
         | _ \<Rightarrow> Inl UnicodeDecodeError)
      else Inl UnicodeDecodeError)"

section \<open>Serializing the tree\<close>

text \<open>
  \<open>_encode_tree\<close>: a node with a single child is refused; a node without children is
  the byte \<open>"1"\<close> and its character string in UTF-8; a node with both children is the
  byte \<open>"0"\<close>, the left subtree and the right subtree.
\<close>

fun encode_tree :: "HuffmanTreeNode \<Rightarrow> error + byte list" where
  "encode_tree (HuffmanTreeNode c f None (Some r) cd) =
     Inl (ValueError ''Broken Huffman tree: tree has a node with a single child.'')"
| "encode_tree (HuffmanTreeNode c f (Some l) None cd) =
     Inl (ValueError ''Broken Huffman tree: tree has a node with a single child.'')"
| "encode_tree (HuffmanTreeNode c f None None cd) =
     (case utf8_encode c of Inl e \<Rightarrow> Inl e | Inr bs \<Rightarrow> Inr (0x31 # bs))"
| "encode_tree (HuffmanTreeNode c f (Some l) (Some r) cd) =
     (case encode_tree l of
        Inl e \<Rightarrow> Inl e
      | Inr bl \<Rightarrow> (case encode_tree r of Inl e \<Rightarrow> Inl e | Inr br \<Rightarrow> Inr (0x30 # bl @ br)))"

text \<open>
  \<open>_decode_tree\<close> works on the decoded string.  An empty string gives no node; the
  character \<open>"1"\<close> starts a leaf whose character is the next one (reading it from a string
  of length one raises \<open>IndexError\<close>); any other character starts a node whose children
  are read one after the other.
\<close>

function decode_tree :: "str \<Rightarrow> error + (HuffmanTreeNode option \<times> str)" where
  "decode_tree tree_str =
     (if tree_str = [] then Inr (None, tree_str)
      else if tree_str ! 0 = 0x31 then
        (if length tree_str < 2 then Inl IndexError
         else Inr (Some (new_node [tree_str ! 1] 0 None None), drop 2 tree_str))
      else
        (case decode_tree (drop 1 tree_str) of
           Inl e \<Rightarrow> Inl e
         | Inr (l, tree_str1) \<Rightarrow>
             (case decode_tree tree_str1 of
                Inl e \<Rightarrow> Inl e
              | Inr (r, tree_str2) \<Rightarrow> Inr (Some (new_node [] 0 l r), tree_str2))))"
  by pat_completeness auto

lemma decode_tree_dom_length:
  "decode_tree_dom s \<Longrightarrow> decode_tree s = Inr (t, rest) \<Longrightarrow> length rest \<le> length s"
proof (induction s arbitrary: t rest rule: decode_tree.pinduct)
  case (1 tree_str)
  show ?case
  proof (cases "tree_str = [] \<or> tree_str ! 0 = 0x31")
    case True
    then show ?thesis
      using "1.prems" "1.hyps" by (auto simp: decode_tree.psimps split: if_splits)
  next
    case False
    from "1.prems" False "1.hyps" obtain l s1 r where
      a: "decode_tree (drop 1 tree_str) = Inr (l, s1)" and b: "decode_tree s1 = Inr (r, rest)"
      by (auto simp: decode_tree.psimps split: sum.splits)
    have "length s1 \<le> length (drop 1 tree_str)"
      using "1.IH"(1)[OF _ _ a] False by simp
    moreover have "length rest \<le> length s1"
      using "1.IH"(2)[OF _ _ a refl b] False by simp
    ultimately show ?thesis by simp
  qed
qed

termination decode_tree
proof (relation "measure length")
  show "wf (measure length)" by simp
next
  fix tree_str :: str
  assume "tree_str \<noteq> []"
  then show "(drop 1 tree_str, tree_str) \<in> measure length" by (cases tree_str) simp_all
next
  fix tree_str :: str and x2 x y
  assume "tree_str \<noteq> []" "decode_tree (drop 1 tree_str) = Inr x2" "(x, y) = x2"
    "decode_tree_dom (drop 1 tree_str)"
  then have "length y \<le> length (drop 1 tree_str)"
    using decode_tree_dom_length[of "drop 1 tree_str" x y] by simp
  with \<open>tree_str \<noteq> []\<close> show "(y, tree_str) \<in> measure length" by (cases tree_str) simp_all
qed

declare decode_tree.simps [simp del]

section \<open>Bits and bytes\<close>

text \<open>
  A \<open>bitarray\<close> of the default (big-endian) bit order: the first bit of every group of
  eight is the most significant bit of its byte.  \<open>padbits\<close> is the number of bits that
  \<open>tobytes\<close> adds, all zero, to fill the last byte.
\<close>

definition byte_of_bits :: "bitarray \<Rightarrow> byte" where
  "byte_of_bits bs = horner_sum of_bool 2 (rev bs)"

definition bits_of_byte :: "byte \<Rightarrow> bitarray" where
  "bits_of_byte b = rev (map (bit b) [0..<8])"

definition padbits :: "bitarray \<Rightarrow> nat" where
  "padbits bits = (8 - length bits mod 8) mod 8"

fun pack_bytes :: "bitarray \<Rightarrow> byte list" where
  "pack_bytes [] = []"
| "pack_bytes (b # bs) = byte_of_bits (take 8 (b # bs)) # pack_bytes (drop 7 bs)"

definition tobytes :: "bitarray \<Rightarrow> byte list" where
  "tobytes bits = pack_bytes (bits @ replicate (padbits bits) False)"

definition frombytes :: "byte list \<Rightarrow> bitarray" where
  "frombytes bs = concat (map bits_of_byte bs)"

text \<open>\<open>int.to_bytes(length, "big", signed=False)\<close> and \<open>int.from_bytes(bytes, "big", signed=False)\<close>.\<close>

definition to_bytes :: "int \<Rightarrow> nat \<Rightarrow> error + byte list" where
  "to_bytes n len =
     (if n < 0 \<or> 256 ^ len \<le> n then Inl OverflowError
      else Inr (map (\<lambda>i. word_of_int (n div 256 ^ i)) (rev [0..<len])))"

definition from_bytes :: "byte list \<Rightarrow> int" where
  "from_bytes bs = foldl (\<lambda>acc b. acc * 256 + uint b) 0 bs"

section \<open>Decoding\<close>

text \<open>
  \<open>_decode_text\<close>: bit 0 goes to the left child, any other bit to the right child; a
  missing child ends the loop, a node without children emits its character string and
  the walk starts again at the root.
\<close>

fun decode_text_loop :: "bitarray \<Rightarrow> HuffmanTreeNode \<Rightarrow> HuffmanTreeNode \<Rightarrow> str list \<Rightarrow> str list" where
  "decode_text_loop [] huffman_tree current_node result = result"
| "decode_text_loop (b # bits) huffman_tree current_node result =
     (case (if \<not> b then left current_node else right current_node) of
        None \<Rightarrow> result
      | Some n \<Rightarrow>
          if left n = None \<and> right n = None
          then decode_text_loop bits huffman_tree huffman_tree (result @ [char n])
          else decode_text_loop bits huffman_tree n result)"

definition decode_text :: "bitarray \<Rightarrow> HuffmanTreeNode \<Rightarrow> str" where
  "decode_text encoded_text huffman_tree =
     concat (decode_text_loop encoded_text huffman_tree huffman_tree [])"

definition decode :: "str \<Rightarrow> bitarray \<Rightarrow> error + str" where
  "decode tree_str encoded_text =
     (case decode_tree tree_str of
        Inl e \<Rightarrow> Inl e
      | Inr (None, remaining) \<Rightarrow> Inl (ValueError ''Invalid tree string'')
      | Inr (Some huffman_tree, remaining) \<Rightarrow> Inr (decode_text encoded_text huffman_tree))"

section \<open>The container\<close>

text \<open>
  \<open>_read_headers\<close>: the first 16 bytes (fewer when the stream is shorter) give the two
  lengths; the rest of the stream is read only to measure it, and the position is set
  back to 16.  The test reads the rest of the stream only when the three comparisons
  before it are false.  \<open>CompressionMethodError\<close> is imported from the interface module.
\<close>

definition invalid_header :: error where
  "invalid_header =
     CompressionMethodError
       ''Invalid header: padding_len or tree_len out of bounds. Make sure the file is a valid compressed file.''"

definition read_headers :: "BinaryIO \<Rightarrow> error + ((int \<times> int) \<times> BinaryIO)" where
  "read_headers bin_in =
     (case read_n bin_in 16 of
        (header, bin_in1) \<Rightarrow>
          (let padding_len = from_bytes (take 8 header);
               tree_len = from_bytes (drop 8 header)
           in
             if padding_len < 0 \<or> tree_len < 0 \<or> padding_len \<ge> 8 then Inl invalid_header
             else
               (case read_all bin_in1 of
                  (rest, bin_in2) \<Rightarrow>
                    if tree_len > int (length rest) then Inl invalid_header
                    else Inr ((padding_len, tree_len), seek bin_in2 16))))"

text \<open>
  \<open>compress\<close>.  The output stream is the list of bytes written so far; every \<open>write\<close>
  appends.  The result is what the call raises or returns together with the output
  stream afterwards.  \<open>_encode_text\<close> never returns \<open>None\<close>, so the test for it is
  not a branch.  The handler turns a \<open>UnicodeDecodeError\<close> into a
  \<open>CompressionMethodError\<close>; the message is shortened to its fixed part, as is the
  message of the \<open>ValueError\<close> for a missing code.
\<close>

definition compress_body :: "TextIO \<Rightarrow> byte list \<Rightarrow> (error + unit) \<times> byte list" where
  "compress_body text_in bin_out =
     (let text_in0 = seek text_in 0 in
      case count_frequencies text_in0 of
        (freq_list, text_in1) \<Rightarrow>
          (let text_in2 = seek text_in1 0 in
           case build_huffman_tree freq_list of
             Inl e \<Rightarrow> (Inl e, bin_out)
           | Inr None \<Rightarrow> (Inr (), bin_out)
           | Inr (Some tree0) \<Rightarrow>
               (case get_codes tree0 of
                  (tree, codes) \<Rightarrow>
                    (case encode_text text_in2 codes of
                       Inl e \<Rightarrow> (Inl e, bin_out)
                     | Inr encoded_text \<Rightarrow>
                         (case encode_tree tree of
                            Inl e \<Rightarrow> (Inl e, bin_out)
                          | Inr encoded_tree \<Rightarrow>
                              (let tree_len = int (length encoded_tree) in
                               case to_bytes tree_len 8 of
                                 Inl e \<Rightarrow> (Inl e, bin_out)
                               | Inr tree_len_info \<Rightarrow>
                                   (case to_bytes (int (padbits encoded_text)) 8 of
                                      Inl e \<Rightarrow> (Inl e, bin_out)
                                    | Inr padding_len_info \<Rightarrow>
                                        (let header = padding_len_info @ tree_len_info in
                                         (Inr (),
                                          bin_out @ header @ encoded_tree @ tobytes encoded_text)))))))))"

definition compress :: "TextIO \<Rightarrow> byte list \<Rightarrow> (error + unit) \<times> byte list" where
  "compress text_in bin_out =
     (case compress_body text_in bin_out of
        (Inl UnicodeDecodeError, out) \<Rightarrow>
          (Inl (CompressionMethodError ''Invalid file format.''), out)
      | res \<Rightarrow> res)"

text \<open>
  \<open>decompress\<close>.  The text output is the string written so far.  The slice
  \<open>[:-padding_len]\<close> drops the last \<open>padding_len\<close> bits, all of them when there are
  fewer.
\<close>

definition decompress :: "BinaryIO \<Rightarrow> str \<Rightarrow> (error + unit) \<times> str" where
  "decompress bin_in text_out =
     (case read_headers bin_in of
        Inl e \<Rightarrow> (Inl e, text_out)
      | Inr ((padding_len, tree_len), bin_in1) \<Rightarrow>
          (case read_n bin_in1 (nat tree_len) of
             (tree_bytes, bin_in2) \<Rightarrow>
               (case utf8_decode tree_bytes of
                  Inl e \<Rightarrow> (Inl e, text_out)
                | Inr tree_str \<Rightarrow>
                    (case read_all bin_in2 of
                       (encoded_text_bytes, bin_in3) \<Rightarrow>
                         (let bits = frombytes encoded_text_bytes;
                              encoded_text_bits =
                                (if padding_len > 0
                                 then take (length bits - nat padding_len) bits
                                 else bits)
                          in
                            case decode tree_str encoded_text_bits of
                              Inl e \<Rightarrow> (Inl e, text_out)
                            | Inr decoded_text \<Rightarrow> (Inr (), text_out @ decoded_text))))))"

text \<open>A stream opened at its start.\<close>

definition open_stream :: "'a list \<Rightarrow> 'a stream" where
  "open_stream xs = \<lparr>content = xs, position = 0\<rparr>"

section \<open>Vocabulary of the properties\<close>

text \<open>\<open>freq_dict.get(k, 0)\<close>, and the frequency list of a text read from its start.\<close>

definition lookup0 :: "(str \<times> int) list \<Rightarrow> str \<Rightarrow> int" where
  "lookup0 d k = (case map_of d k of None \<Rightarrow> 0 | Some f \<Rightarrow> f)"

definition freq_table :: "str \<Rightarrow> (int \<times> str) list" where
  "freq_table T = fst (count_frequencies (open_stream T))"

text \<open>
  The node the merge loop makes of two popped nodes.  Whatever holds of every leaf and
  is kept by merging holds of the tree, and a quantity that merging adds up is, at the
  root, the sum over the frequency list.
\<close>

definition merged :: "HuffmanTreeNode \<Rightarrow> HuffmanTreeNode \<Rightarrow> HuffmanTreeNode" where
  "merged l r = new_node (char l @ char r) (freq l + freq r) (Some l) (Some r)"

fun leaf_freq_sum :: "HuffmanTreeNode \<Rightarrow> int" where
  "leaf_freq_sum (HuffmanTreeNode c f (Some l) (Some r) cd) = leaf_freq_sum l + leaf_freq_sum r"
| "leaf_freq_sum (HuffmanTreeNode c f l r cd) = f"

fun sums_ok :: "HuffmanTreeNode \<Rightarrow> bool" where
  "sums_ok (HuffmanTreeNode c f (Some l) (Some r) cd) = (f = freq l + freq r \<and> sums_ok l \<and> sums_ok r)"
| "sums_ok (HuffmanTreeNode c f l r cd) = True"

text \<open>
  The paths \<open>traverse\<close> stores, in the order it stores them: one per node that does not
  have both children.
\<close>

fun leaf_codes :: "HuffmanTreeNode \<Rightarrow> bitarray \<Rightarrow> (str \<times> bitarray) list" where
  "leaf_codes (HuffmanTreeNode c f (Some l) (Some r) cd) p =
     leaf_codes l (p @ [False]) @ leaf_codes r (p @ [True])"
| "leaf_codes (HuffmanTreeNode c f l r cd) p = [(c, p)]"

fun put_code :: "codes \<Rightarrow> str \<times> bitarray \<Rightarrow> codes" where
  "put_code m (c, b) = m(c \<mapsto> Some b)"

text \<open>
  The Unicode scalar values are the code points that UTF-8 can encode.  A tree is full
  when every node has both children or none and every node without children is
  labelled with a single character.  \<open>leaves\<close> lists the labels of the nodes without
  both children from left to right, \<open>tree_string\<close> is the string whose UTF-8 encoding
  \<open>_encode_tree\<close> writes, and two trees have the same shape when they branch alike and
  carry the same labels at corresponding leaves.
\<close>

definition is_scalar :: "nat \<Rightarrow> bool" where
  "is_scalar c = (c < 0xD800 \<or> (0xE000 \<le> c \<and> c < 0x110000))"

fun full_tree :: "HuffmanTreeNode \<Rightarrow> bool" where
  "full_tree (HuffmanTreeNode c f (Some l) (Some r) cd) = (full_tree l \<and> full_tree r)"
| "full_tree (HuffmanTreeNode c f None None cd) = (length c = 1)"
| "full_tree (HuffmanTreeNode c f l r cd) = False"

fun leaves :: "HuffmanTreeNode \<Rightarrow> str list" where
  "leaves (HuffmanTreeNode c f (Some l) (Some r) cd) = leaves l @ leaves r"
| "leaves (HuffmanTreeNode c f l r cd) = [c]"

fun same_shape :: "HuffmanTreeNode \<Rightarrow> HuffmanTreeNode \<Rightarrow> bool" where
  "same_shape (HuffmanTreeNode c f (Some l) (Some r) cd) (HuffmanTreeNode c' f' (Some l') (Some r') cd') =
     (same_shape l l' \<and> same_shape r r')"
| "same_shape (HuffmanTreeNode c f None None cd) (HuffmanTreeNode c' f' None None cd') = (c = c')"
| "same_shape t t' = False"

fun tree_string :: "HuffmanTreeNode \<Rightarrow> str" where
  "tree_string (HuffmanTreeNode c f (Some l) (Some r) cd) = 0x30 # tree_string l @ tree_string r"
| "tree_string (HuffmanTreeNode c f l r cd) = 0x31 # c"

text \<open>
  The fields of a compressed output as the format lays them out: the padding length in
  bytes 0 to 7, the tree length in bytes 8 to 15, and the payload after the tree.  The
  code table of a text is the one \<open>compress\<close> computes for it, and \<open>encoded_bits\<close> is the
  concatenation of the codes of its characters.
\<close>

definition padding_length_field :: "byte list \<Rightarrow> int" where
  "padding_length_field out = from_bytes (take 8 out)"

definition tree_length_field :: "byte list \<Rightarrow> int" where
  "tree_length_field out = from_bytes (take 8 (drop 8 out))"

definition payload :: "byte list \<Rightarrow> byte list" where
  "payload out = drop (16 + nat (tree_length_field out)) out"

definition code_of :: "codes \<Rightarrow> str \<Rightarrow> bitarray" where
  "code_of codes c = (case codes c of Some (Some b) \<Rightarrow> b | _ \<Rightarrow> [])"

definition encoded_bits :: "codes \<Rightarrow> str \<Rightarrow> bitarray" where
  "encoded_bits codes s = concat (map (\<lambda>c. code_of codes [c]) s)"

definition code_table :: "str \<Rightarrow> codes" where
  "code_table T =
     (case build_huffman_tree (freq_table T) of
        Inr (Some t) \<Rightarrow> snd (get_codes t)
      | _ \<Rightarrow> Map.empty)"

section \<open>Results on the container and on malformed input\<close>

text \<open>
  C3.  A serialized tree that is cut short must be refused.  It is not: on the string
  \<open>"01a"\<close>, an inner node whose right child is missing, \<open>_decode_tree\<close> returns a
  node with a left leaf and no right child, and \<open>_decode\<close> decodes with it.
  On \<open>"0"\<close> it returns a node without children, and on \<open>"1"\<close> the missing
  character raises \<open>IndexError\<close>.  Only the empty string reaches the
  \<open>ValueError\<close> of \<open>_decode\<close>.
\<close>

theorem decode_tree_accepts_dangling_node:
  "decode_tree [0x30, 0x31, 0x61] =
     Inr (Some (HuffmanTreeNode [] 0 (Some (HuffmanTreeNode [0x61] 0 None None [])) None []), [])
   \<and> decode [0x30, 0x31, 0x61] [False, True, False] = Inr [0x61]
   \<and> decode_tree [0x30] = Inr (Some (HuffmanTreeNode [] 0 None None []), [])
   \<and> decode [0x31] [] = Inl IndexError
   \<and> decode [] [] = Inl (ValueError ''Invalid tree string'')"
  by code_simp

text \<open>
  C4.  When the stream holds at least the 16 bytes of a header, and the padding length
  (bytes 0 to 7, big-endian) is not in \<open>[0, 8)\<close> or the tree length (bytes 8 to 15)
  exceeds the number of bytes after the header, \<open>_read_headers\<close> raises the
  \<open>CompressionMethodError\<close> for an invalid header.
\<close>

theorem read_headers_rejects_bad_fields:
  assumes "16 \<le> length bs"
    and "\<not> (0 \<le> from_bytes (take 8 bs) \<and> from_bytes (take 8 bs) < 8)
         \<or> int (length bs) - 16 < from_bytes (take 8 (drop 8 bs))"
  shows "read_headers (open_stream bs) = Inl invalid_header"
  using assms
  by (auto simp: read_headers_def open_stream_def read_n_def read_all_def Let_def
        take_drop min_def)

theorem read_headers_rejects_bad_fields_witness:
  "read_headers (open_stream [0,0,0,0,0,0,0,9, 0,0,0,0,0,0,0,0]) = Inl invalid_header
   \<and> read_headers (open_stream [0,0,0,0,0,0,0,0, 0,0,0,0,0,0,0,2, 5]) = Inl invalid_header"
  using read_headers_rejects_bad_fields[of "[0,0,0,0,0,0,0,9, 0,0,0,0,0,0,0,0]"]
    read_headers_rejects_bad_fields[of "[0,0,0,0,0,0,0,0, 0,0,0,0,0,0,0,2, 5]"]
  by (simp add: from_bytes_def)

text \<open>
  C10.  Whatever \<open>decompress\<close> raises, the text output is what it was before the
  call; and when it returns, the header was read, the tree bytes were decoded, the
  payload was decoded against the tree, and the output grew by exactly the decoded
  text.
\<close>

theorem decompress_writes_only_after_success:
  "(\<forall>e out. decompress bin_in text_out = (Inl e, out) \<longrightarrow> out = text_out) \<and>
   (\<forall>u out. decompress bin_in text_out = (Inr u, out) \<longrightarrow>
      (\<exists>padding_len tree_len bin_in1 tree_str bits decoded_text.
          read_headers bin_in = Inr ((padding_len, tree_len), bin_in1) \<and>
          utf8_decode (fst (read_n bin_in1 (nat tree_len))) = Inr tree_str \<and>
          decode tree_str bits = Inr decoded_text \<and>
          out = text_out @ decoded_text))"
  by (auto simp: decompress_def Let_def split: sum.splits prod.splits option.splits)

theorem decompress_writes_only_after_success_witness:
  "decompress (open_stream []) [0x78] = (Inl (ValueError ''Invalid tree string''), [0x78])"
proof -
  have "fst (decompress (open_stream []) [0x78]) = Inl (ValueError ''Invalid tree string'')"
    by code_simp
  then obtain out where
    "decompress (open_stream []) [0x78] = (Inl (ValueError ''Invalid tree string''), out)"
    by (cases "decompress (open_stream []) [0x78]") auto
  with decompress_writes_only_after_success[of "open_stream []" "[0x78]"]
  show ?thesis by auto
qed

section \<open>The frequency list\<close>

lemma count_loop_distinct:
  "distinct (map fst d) \<Longrightarrow> distinct (map fst (count_loop s d))"
  by (induction s arbitrary: d) (simp_all add: distinct_update)

lemma count_loop_keys:
  "fst ` set (count_loop s d) = fst ` set d \<union> (\<lambda>c. [c]) ` set s"
  by (induction s arbitrary: d) (auto simp: dom_update)

lemma count_loop_lookup:
  "lookup0 (count_loop s d) [c] = lookup0 d [c] + int (count_list s c)"
  by (induction s arbitrary: d) (auto simp: lookup0_def update_conv')

lemma sum_snd_update:
  "sum_list (map snd (AList.update k v al)) = sum_list (map snd al) - lookup0 al k + v"
  by (induction al) (auto simp: lookup0_def)

lemma count_loop_sum:
  "sum_list (map snd (count_loop s d)) = sum_list (map snd d) + int (length s)"
  by (induction s arbitrary: d) (simp_all add: sum_snd_update lookup0_def)

lemma mset_sort_reverse: "mset (sort_reverse xs) = mset xs"
  by (simp add: sort_reverse_def)

lemma set_sort_reverse: "set (sort_reverse xs) = set xs"
  by (simp add: sort_reverse_def)

lemma sort_reverse_sorted: "sorted_wrt (\<lambda>p q. q \<le> p) (sort_reverse xs)"
  by (simp add: sort_reverse_def sorted_wrt_rev)

lemma sorted_wrt_strict:
  "sorted_wrt (\<lambda>p q. q \<le> p) ys \<Longrightarrow> distinct ys \<Longrightarrow> sorted_wrt (\<lambda>p q. q < (p::'a::order)) ys"
  by (induction ys) (auto simp: less_le)

lemma sort_reverse_strict:
  "distinct xs \<Longrightarrow> sorted_wrt (\<lambda>p q. q < p) (sort_reverse xs)"
  by (rule sorted_wrt_strict[OF sort_reverse_sorted]) (simp add: sort_reverse_def)

lemma map_snd_swap: "map snd (map (\<lambda>(c, f). (f, c)) al) = map fst al"
  by (induction al) auto

lemma map_fst_swap: "map fst (map (\<lambda>(c, f). (f, c)) al) = map snd al"
  by (induction al) auto

lemma mset_map_sort_reverse: "mset (map g (sort_reverse xs)) = mset (map g xs)"
  by (simp add: mset_sort_reverse)

lemma freq_table_eq:
  "freq_table T = sort_reverse (map (\<lambda>(c, f). (f, c)) (count_loop T []))"
  by (simp add: freq_table_def count_frequencies_def open_stream_def read_all_def Let_def)

lemma freq_table_keys: "snd ` set (freq_table T) = (\<lambda>c. [c]) ` set T"
proof -
  have "snd ` set (freq_table T) = fst ` set (count_loop T [])"
    by (force simp: freq_table_eq set_sort_reverse)
  then show ?thesis by (simp add: count_loop_keys)
qed

lemma freq_table_distinct: "distinct (map snd (freq_table T))"
proof -
  have d: "distinct (map fst (count_loop T []))" by (rule count_loop_distinct) simp
  have "mset (map snd (freq_table T)) = mset (map fst (count_loop T []))"
    unfolding freq_table_eq mset_map_sort_reverse map_snd_swap ..
  then show ?thesis using d by (metis distinct_count_atmost_1 mset_eq_setD set_mset_mset)
qed

lemma freq_table_entry:
  assumes "(f, s) \<in> set (freq_table T)"
  shows "\<exists>c. s = [c] \<and> c \<in> set T \<and> f = int (count_list T c)"
proof -
  from assms have m: "(s, f) \<in> set (count_loop T [])"
    by (auto simp: freq_table_eq set_sort_reverse)
  have d: "distinct (map fst (count_loop T []))" by (rule count_loop_distinct) simp
  from m have "s \<in> fst ` set (count_loop T [])" by force
  then obtain c where c: "s = [c]" "c \<in> set T" by (auto simp: count_loop_keys)
  from m d have "map_of (count_loop T []) s = Some f" by simp
  then have "lookup0 (count_loop T []) [c] = f" by (simp add: lookup0_def c)
  then have "f = int (count_list T c)"
    using count_loop_lookup[of T "[]" c] by (simp add: lookup0_def)
  with c show ?thesis by blast
qed

lemma freq_table_sum: "sum_list (map fst (freq_table T)) = int (length T)"
proof -
  have "mset (map fst (freq_table T)) = mset (map snd (count_loop T []))"
    unfolding freq_table_eq mset_map_sort_reverse map_fst_swap ..
  then have "sum_list (map fst (freq_table T)) = sum_list (map snd (count_loop T []))"
    by (metis sum_mset_sum_list)
  then show ?thesis by (simp add: count_loop_sum)
qed

lemma freq_table_sorted:
  "sorted_wrt (\<lambda>p q. fst q < fst p \<or> (fst p = fst q \<and> hd (snd q) < hd (snd p))) (freq_table T)"
proof -
  have d: "distinct (freq_table T)" using freq_table_distinct[of T] by (simp add: distinct_map)
  have "distinct (map (\<lambda>(c, f). (f, c)) (count_loop T []))"
    using count_loop_distinct[of "[]" T] by (auto simp: distinct_map inj_on_def)
  then have "sorted_wrt (\<lambda>p q. q < p) (freq_table T)"
    unfolding freq_table_eq by (rule sort_reverse_strict)
  then show ?thesis
  proof (rule sorted_wrt_mono_rel[rotated])
    fix p q assume "p \<in> set (freq_table T)" "q \<in> set (freq_table T)" "q < p"
    moreover obtain f1 s1 f2 s2 where pq: "p = (f1, s1)" "q = (f2, s2)" by (cases p, cases q) auto
    ultimately obtain c1 c2 where "s1 = [c1]" "s2 = [c2]"
      using freq_table_entry by blast
    with \<open>q < p\<close> pq show "fst q < fst p \<or> (fst p = fst q \<and> hd (snd q) < hd (snd p))"
      by (auto simp: less_prod_def)
  qed
qed

text \<open>
  C9.  The frequency list of a text has exactly one pair per distinct character, each
  holding the number of occurrences of its character; it is in strictly descending
  order of the frequency and, among equal frequencies, of the code point; the empty
  text gives the empty list.
\<close>

theorem count_frequencies_table:
  "distinct (map snd (freq_table T))
   \<and> set (map snd (freq_table T)) = (\<lambda>c. [c]) ` set T
   \<and> freq_table T = map (\<lambda>s. (int (count_list T (hd s)), s)) (map snd (freq_table T))
   \<and> sorted_wrt (\<lambda>p q. fst q < fst p \<or> (fst p = fst q \<and> hd (snd q) < hd (snd p)))
         (freq_table T)
   \<and> freq_table [] = []"
proof -
  have "map (\<lambda>p. (int (count_list T (hd (snd p))), snd p)) (freq_table T) = freq_table T"
  proof (rule map_idI)
    fix p assume m: "p \<in> set (freq_table T)"
    obtain f s where p: "p = (f, s)" by (cases p)
    from freq_table_entry[of f s T] m p obtain c where "s = [c]" "f = int (count_list T c)"
      by blast
    then show "(int (count_list T (hd (snd p))), snd p) = p" by (simp add: p)
  qed
  then have "freq_table T = map (\<lambda>s. (int (count_list T (hd s)), s)) (map snd (freq_table T))"
    by (simp add: comp_def)
  moreover have "freq_table [] = []"
    using freq_table_keys[of "[]"] by simp
  ultimately show ?thesis
    using freq_table_distinct[of T] freq_table_keys[of T] freq_table_sorted[of T] by simp
qed

theorem count_frequencies_table_witness:
  "freq_table [97, 98, 98, 99, 97, 100, 100] = [(2, [100]), (2, [98]), (2, [97]), (1, [99])]
   \<and> distinct (map snd (freq_table [97, 98, 98, 99, 97, 100, 100]))"
proof -
  have "freq_table [97, 98, 98, 99, 97, 100, 100] = [(2, [100]), (2, [98]), (2, [97]), (1, [99])]"
    by code_simp
  with count_frequencies_table[of "[97, 98, 98, 99, 97, 100, 100]"] show ?thesis by simp
qed

section \<open>Properties of the tree that is built\<close>

lemma sum_list_map_mset:
  fixes g :: "'b \<Rightarrow> 'a::comm_monoid_add"
  shows "mset xs = mset ys \<Longrightarrow> sum_list (map g xs) = sum_list (map g ys)"
  by (metis mset_map sum_mset_sum_list)

lemma merge_trees_invariant:
  fixes g :: "HuffmanTreeNode \<Rightarrow> 'a::comm_monoid_add"
  assumes mp: "\<And>l r. P l \<Longrightarrow> P r \<Longrightarrow> P (merged l r)"
    and mg: "\<And>l r. g (merged l r) = g l + g r"
  shows "nodes \<noteq> [] \<Longrightarrow> \<forall>t\<in>set nodes. P t \<Longrightarrow>
     \<exists>t. merge_trees nodes = Inr [t] \<and> P t \<and> g t = sum_list (map g nodes)"
proof (induction nodes rule: merge_trees.induct)
  case (1 nodes)
  show ?case
  proof (cases "length nodes > 1")
    case False
    with "1.prems" obtain t where "nodes = [t]" by (cases nodes) auto
    then show ?thesis using "1.prems" by (subst merge_trees.simps) simp
  next
    case True
    then have "nodes \<noteq> []" by auto
    then obtain l n1 where p1: "heappop nodes = Inr (l, n1)" using heappop_nonempty by blast
    have m1: "mset nodes = add_mset l (mset n1)" by (rule heappop_mset[OF p1])
    have "length n1 = length nodes - 1" using heappop_length[OF p1] by simp
    with True have "n1 \<noteq> []" by auto
    then obtain r n2 where p2: "heappop n1 = Inr (r, n2)" using heappop_nonempty by blast
    have m2: "mset n1 = add_mset r (mset n2)" by (rule heappop_mset[OF p2])
    let ?n3 = "heappush n2 (merged l r)"
    have m3: "mset ?n3 = add_mset (merged l r) (mset n2)" by (rule heappush_mset)
    have mall: "mset nodes = add_mset l (add_mset r (mset n2))" using m1 m2 by simp
    have sn: "set nodes = insert l (insert r (set n2))"
      using arg_cong[OF mall, of set_mset] by simp
    have s3: "set ?n3 = insert (merged l r) (set n2)"
      using arg_cong[OF m3, of set_mset] by simp
    have ne3: "?n3 \<noteq> []" using s3 by auto
    have P3: "\<forall>t\<in>set ?n3. P t" using "1.prems"(2) sn s3 mp by auto
    have "sum_list (map g ?n3) = sum_list (map g (merged l r # n2))"
      by (rule sum_list_map_mset) (simp add: m3)
    moreover have "sum_list (map g nodes) = sum_list (map g (l # r # n2))"
      by (rule sum_list_map_mset) (simp add: mall)
    ultimately have g3: "sum_list (map g ?n3) = sum_list (map g nodes)"
      by (simp add: mg add.assoc)
    from "1.IH"[OF True p1 refl p2 refl, folded merged_def, OF ne3 P3]
    obtain t where "merge_trees ?n3 = Inr [t]" "P t" "g t = sum_list (map g ?n3)" by blast
    then show ?thesis
      using True p1 p2 g3 by (subst merge_trees.simps) (simp add: merged_def)
  qed
qed

lemma foldl_heappush_mset:
  "mset (foldl (\<lambda>nodes (f, c). heappush nodes (new_node c f None None)) init freq_list)
     = mset init + mset (map (\<lambda>(f, c). new_node c f None None) freq_list)"
  by (induction freq_list arbitrary: init) (auto simp: heappush_mset)

lemma heappop_single: "heappop [t] = Inr (t, [])"
  by (simp add: heappop_def)

lemma build_huffman_tree_invariant:
  fixes g :: "HuffmanTreeNode \<Rightarrow> 'a::comm_monoid_add"
  assumes ne: "freq_list \<noteq> []"
    and lp: "\<And>f c. (f, c) \<in> set freq_list \<Longrightarrow> P (new_node c f None None)"
    and mp: "\<And>l r. P l \<Longrightarrow> P r \<Longrightarrow> P (merged l r)"
    and mg: "\<And>l r. g (merged l r) = g l + g r"
  shows "\<exists>t. build_huffman_tree freq_list = Inr (Some t) \<and> P t \<and>
           g t = sum_list (map (\<lambda>(f, c). g (new_node c f None None)) freq_list)"
proof -
  let ?nodes = "foldl (\<lambda>nodes (f, c). heappush nodes (new_node c f None None)) [] freq_list"
  let ?leaves = "map (\<lambda>(f, c). new_node c f None None) freq_list"
  have m: "mset ?nodes = mset ?leaves" by (simp add: foldl_heappush_mset)
  then have s: "set ?nodes = set ?leaves" by (rule mset_eq_setD)
  have n1: "?nodes \<noteq> []" using s ne by (cases freq_list) auto
  have n2: "\<forall>t\<in>set ?nodes. P t" using s lp by auto
  from merge_trees_invariant[of P g, OF mp mg n1 n2]
  obtain t where t: "merge_trees ?nodes = Inr [t]" "P t" "g t = sum_list (map g ?nodes)"
    by blast
  have "sum_list (map g ?nodes) = sum_list (map g ?leaves)"
    by (rule sum_list_map_mset[OF m])
  also have "\<dots> = sum_list (map (\<lambda>(f, c). g (new_node c f None None)) freq_list)"
    by (simp add: comp_def case_prod_unfold)
  finally have "g t = sum_list (map (\<lambda>(f, c). g (new_node c f None None)) freq_list)"
    using t(3) by simp
  moreover have "build_huffman_tree freq_list = Inr (Some t)"
    using ne t(1) by (simp add: build_huffman_tree_def Let_def heappop_single)
  ultimately show ?thesis using t(2) by blast
qed

text \<open>
  C8.  For a non-empty text a tree is built; the frequency at its root is the sum of
  the frequencies at its leaves, which is the number of characters of the text, and
  every node with two children carries the sum of their frequencies.  The empty text
  has no tree.
\<close>

theorem tree_weight_is_text_length:
  "(T = [] \<longrightarrow> build_huffman_tree (freq_table T) = Inr None) \<and>
   (T \<noteq> [] \<longrightarrow>
      (\<exists>t. build_huffman_tree (freq_table T) = Inr (Some t) \<and> freq t = leaf_freq_sum t
         \<and> leaf_freq_sum t = int (length T) \<and> sums_ok t))"
proof (cases "T = []")
  case True
  have "freq_table [] = []" using freq_table_keys[of "[]"] by simp
  then show ?thesis using True by (simp add: build_huffman_tree_def)
next
  case False
  have ne: "freq_table T \<noteq> []" using freq_table_keys[of T] False by auto
  from build_huffman_tree_invariant[of "freq_table T"
      "\<lambda>t. freq t = leaf_freq_sum t \<and> sums_ok t" freq, OF ne]
  obtain t where t: "build_huffman_tree (freq_table T) = Inr (Some t)"
     "freq t = leaf_freq_sum t \<and> sums_ok t"
     "freq t = sum_list (map (\<lambda>(f, c). freq (new_node c f None None)) (freq_table T))"
    by (auto simp: merged_def new_node_def)
  have "sum_list (map (\<lambda>(f, c). freq (new_node c f None None)) (freq_table T))
      = sum_list (map fst (freq_table T))"
    by (simp add: new_node_def case_prod_unfold)
  with t freq_table_sum[of T] False show ?thesis by auto
qed

theorem tree_weight_is_text_length_witness:
  "(\<exists>t. build_huffman_tree (freq_table [97, 97, 98]) = Inr (Some t) \<and> freq t = leaf_freq_sum t
      \<and> leaf_freq_sum t = 3 \<and> sums_ok t)
   \<and> build_huffman_tree (freq_table []) = Inr None"
  using tree_weight_is_text_length[of "[97, 97, 98]"] tree_weight_is_text_length[of "[]"]
  by simp

section \<open>Properties of the codes\<close>

lemma leaf_codes_prefix: "(c, b) \<in> set (leaf_codes t p) \<Longrightarrow> prefix p b"
  by (induction t p rule: leaf_codes.induct) (auto dest: append_prefixD)

lemma prefix_branch:
  assumes "prefix (p @ [x]) b1" "prefix (p @ [y]) b2" "prefix b1 b2"
  shows "x = y"
proof -
  from assms have "prefix (p @ [x]) b2" by auto
  with assms(2) show ?thesis by (auto simp: prefix_def)
qed

lemma leaf_codes_prefix_free:
  "(c1, b1) \<in> set (leaf_codes t p) \<Longrightarrow> (c2, b2) \<in> set (leaf_codes t p) \<Longrightarrow> prefix b1 b2 \<Longrightarrow>
     c1 = c2 \<and> b1 = b2"
proof (induction t p rule: leaf_codes.induct)
  case (1 c f l r cd p)
  let ?L = "set (leaf_codes l (p @ [False]))" and ?R = "set (leaf_codes r (p @ [True]))"
  from "1.prems"(1) have m1: "(c1, b1) \<in> ?L \<or> (c1, b1) \<in> ?R" by simp
  from "1.prems"(2) have m2: "(c2, b2) \<in> ?L \<or> (c2, b2) \<in> ?R" by simp
  from m1 m2 consider
      (LL) "(c1, b1) \<in> ?L" "(c2, b2) \<in> ?L"
    | (RR) "(c1, b1) \<in> ?R" "(c2, b2) \<in> ?R"
    | (LR) "(c1, b1) \<in> ?L" "(c2, b2) \<in> ?R"
    | (RL) "(c1, b1) \<in> ?R" "(c2, b2) \<in> ?L"
    by blast
  then show ?case
  proof cases
    case LL
    then show ?thesis using "1.IH"(1) "1.prems"(3) by blast
  next
    case RR
    then show ?thesis using "1.IH"(2) "1.prems"(3) by blast
  next
    case LR
    then have "False = True"
      using prefix_branch[OF leaf_codes_prefix leaf_codes_prefix "1.prems"(3)] by blast
    then show ?thesis by simp
  next
    case RL
    then have "True = False"
      using prefix_branch[OF leaf_codes_prefix leaf_codes_prefix "1.prems"(3)] by blast
    then show ?thesis by simp
  qed
qed auto

lemma traverse_leaf_codes: "traverse t p m = foldl put_code m (leaf_codes t p)"
  by (induction t p m rule: traverse.induct) simp_all

lemma foldl_put_code_cases:
  "foldl put_code m xs k = Some v \<Longrightarrow> m k = Some v \<or> (\<exists>b. v = Some b \<and> (k, b) \<in> set xs)"
proof (induction xs arbitrary: m)
  case Nil
  then show ?case by simp
next
  case (Cons x xs)
  from Cons.prems have "foldl put_code (put_code m x) xs k = Some v" by simp
  from Cons.IH[OF this] show ?case
    by (cases x) (auto split: if_splits)
qed

lemma leaf_codes_code_tree: "leaf_codes (code_tree t cd') p = leaf_codes t p"
  by (induction t cd' arbitrary: p rule: code_tree.induct) simp_all

lemma get_codes_leaf_codes:
  "snd (get_codes t) k = Some (Some b) \<Longrightarrow> (k, b) \<in> set (leaf_codes t [])"
  using foldl_put_code_cases[of Map.empty "leaf_codes t []" k "Some b"]
  by (simp add: get_codes_def Let_def traverse_leaf_codes leaf_codes_code_tree)

text \<open>
  C7.  In the code table of a tree that \<open>_build_huffman_tree\<close> returns, the code of a
  character is never a prefix of the code of another character.
\<close>

theorem codes_prefix_free:
  assumes "build_huffman_tree freq_list = Inr (Some t)"
    and "snd (get_codes t) c1 = Some (Some b1)"
    and "snd (get_codes t) c2 = Some (Some b2)"
    and "c1 \<noteq> c2"
  shows "\<not> prefix b1 b2"
  using leaf_codes_prefix_free[OF get_codes_leaf_codes[OF assms(2)]
      get_codes_leaf_codes[OF assms(3)]] assms(4)
  by blast

theorem codes_prefix_free_witness:
  "build_huffman_tree (freq_table [97, 97, 98, 99]) = Inr (Some
      (HuffmanTreeNode [97, 99, 98] 4 (Some (HuffmanTreeNode [97] 2 None None []))
         (Some (HuffmanTreeNode [99, 98] 2 (Some (HuffmanTreeNode [99] 1 None None []))
            (Some (HuffmanTreeNode [98] 1 None None [])) [])) []))
   \<and> snd (get_codes (HuffmanTreeNode [97, 99, 98] 4 (Some (HuffmanTreeNode [97] 2 None None []))
         (Some (HuffmanTreeNode [99, 98] 2 (Some (HuffmanTreeNode [99] 1 None None []))
            (Some (HuffmanTreeNode [98] 1 None None [])) [])) [])) [97] = Some (Some [False])
   \<and> snd (get_codes (HuffmanTreeNode [97, 99, 98] 4 (Some (HuffmanTreeNode [97] 2 None None []))
         (Some (HuffmanTreeNode [99, 98] 2 (Some (HuffmanTreeNode [99] 1 None None []))
            (Some (HuffmanTreeNode [98] 1 None None [])) [])) [])) [98] = Some (Some [True, True])
   \<and> \<not> prefix [False] [True, True]"
proof -
  let ?t = "HuffmanTreeNode [97, 99, 98] 4 (Some (HuffmanTreeNode [97] 2 None None []))
         (Some (HuffmanTreeNode [99, 98] 2 (Some (HuffmanTreeNode [99] 1 None None []))
            (Some (HuffmanTreeNode [98] 1 None None [])) [])) []"
  have b: "build_huffman_tree (freq_table [97, 97, 98, 99]) = Inr (Some ?t)" by code_simp
  have c1: "snd (get_codes ?t) [97] = Some (Some [False])" by code_simp
  have c2: "snd (get_codes ?t) [98] = Some (Some [True, True])" by code_simp
  from codes_prefix_free[OF b c1 c2] b c1 c2 show ?thesis by simp
qed

section \<open>UTF-8 decoding inverts encoding\<close>

lemma unat_byte: "x < 256 \<Longrightarrow> unat (of_nat x :: byte) = x"
  by (simp add: unat_of_nat)

lemma cons_char_simps [simp]:
  "cons_char c (Inr cs) = Inr (c # cs)" "cons_char c (Inl e) = Inl e"
  by (simp_all add: cons_char_def)

lemma split3: "c div 4096 * 4096 + c div 64 mod 64 * 64 + c mod 64 = (c::nat)"
proof -
  have a: "c mod 4096 = c div 64 mod 64 * 64 + c mod 64"
    using mod_mult2_eq[of c 64 64] by (simp add: mult.commute)
  have b: "c div 4096 * 4096 + c mod 4096 = c" by simp
  show ?thesis using b unfolding a by (simp only: add.assoc)
qed

lemma split4:
  "c div 262144 * 262144 + c div 4096 mod 64 * 4096 + c div 64 mod 64 * 64 + c mod 64 = (c::nat)"
proof -
  have a: "c mod 262144 = c div 4096 mod 64 * 4096 + c mod 4096"
    using mod_mult2_eq[of c 4096 64] by (simp add: mult.commute)
  have a': "c mod 4096 = c div 64 mod 64 * 64 + c mod 64"
    using mod_mult2_eq[of c 64 64] by (simp add: mult.commute)
  have b: "c div 262144 * 262144 + c mod 262144 = c" by simp
  show ?thesis using b unfolding a a' by (simp only: add.assoc)
qed


lemma utf8_char_roundtrip:
  assumes "utf8_encode_char c = Inr bs"
  shows "utf8_decode (bs @ rest) = cons_char c (utf8_decode rest)"
proof -
  consider (one) "c < 0x80" | (two) "0x80 \<le> c" "c < 0x800"
    | (three) "0x800 \<le> c" "c < 0x10000" "\<not> (0xD800 \<le> c \<and> c < 0xE000)"
    | (four) "0x10000 \<le> c" "c < 0x110000"
    using assms by (auto simp: utf8_encode_char_def split: if_splits)
  then show ?thesis
  proof cases
    case one
    then have "bs = [of_nat c]" using assms by (simp add: utf8_encode_char_def)
    moreover have "unat (of_nat c :: byte) = c" using one by (simp add: unat_byte)
    ultimately show ?thesis using one by (simp add: Let_def)
  next
    case two
    define a b where "a = c div 64" and "b = c mod 64"
    have f: "2 \<le> a" "a < 32" "b < 64" "a * 64 + b = c" using two by (simp_all add: a_def b_def) 
    have bs: "bs = [of_nat (0xC0 + a), of_nat (0x80 + b)]"
      using assms two by (simp add: utf8_encode_char_def a_def b_def)
    have u: "unat (of_nat (0xC0 + a) :: byte) = 0xC0 + a" "unat (of_nat (0x80 + b) :: byte) = 0x80 + b"
      using f unat_byte[of "0xC0 + a"] unat_byte[of "0x80 + b"] by simp_all
    show ?thesis using f u unfolding bs by (simp add: Let_def continuation_def)
  next
    case three
    define a b d where "a = c div 4096" and "b = c div 64 mod 64" and "d = c mod 64"
    have f: "a < 16" "b < 64" "d < 64" using three by (simp_all add: a_def b_def d_def)
    have e: "a * 4096 + b * 64 + d = c" unfolding a_def b_def d_def by (rule split3)
    have bs: "bs = [of_nat (0xE0 + a), of_nat (0x80 + b), of_nat (0x80 + d)]"
      using assms three by (simp add: utf8_encode_char_def a_def b_def d_def)
    have u: "unat (of_nat (0xE0 + a) :: byte) = 0xE0 + a" "unat (of_nat (0x80 + b) :: byte) = 0x80 + b"
       "unat (of_nat (0x80 + d) :: byte) = 0x80 + d"
      using f unat_byte[of "0xE0 + a"] unat_byte[of "0x80 + b"] unat_byte[of "0x80 + d"] by simp_all
    show ?thesis using f e three u unfolding bs by (simp add: Let_def continuation_def)
  next
    case four
    define a b d g where "a = c div 262144" and "b = c div 4096 mod 64" and "d = c div 64 mod 64" and "g = c mod 64"
    have f: "a < 5" "b < 64" "d < 64" "g < 64" using four by (simp_all add: a_def b_def d_def g_def)
    have e: "a * 262144 + b * 4096 + d * 64 + g = c" unfolding a_def b_def d_def g_def by (rule split4)
    have bs: "bs = [of_nat (0xF0 + a), of_nat (0x80 + b), of_nat (0x80 + d), of_nat (0x80 + g)]"
      using assms four by (simp add: utf8_encode_char_def a_def b_def d_def g_def)
    have u: "unat (of_nat (0xF0 + a) :: byte) = 0xF0 + a" "unat (of_nat (0x80 + b) :: byte) = 0x80 + b"
       "unat (of_nat (0x80 + d) :: byte) = 0x80 + d" "unat (of_nat (0x80 + g) :: byte) = 0x80 + g"
      using f unat_byte[of "0xF0 + a"] unat_byte[of "0x80 + b"] unat_byte[of "0x80 + d"]
        unat_byte[of "0x80 + g"] by simp_all
    show ?thesis using f e four u unfolding bs by (simp add: Let_def continuation_def)
  qed
qed

lemma utf8_roundtrip: "utf8_encode s = Inr bs \<Longrightarrow> utf8_decode bs = Inr s"
proof (induction s arbitrary: bs)
  case Nil
  then show ?case by simp
next
  case (Cons c s)
  from Cons.prems obtain b1 b2 where b: "utf8_encode_char c = Inr b1" "utf8_encode s = Inr b2" "bs = b1 @ b2"
    by (auto split: sum.splits)
  show ?case using utf8_char_roundtrip[OF b(1), of b2] Cons.IH[OF b(2)] b(3) by simp
qed

section \<open>Deserializing a serialized tree\<close>

lemma utf8_encode_append:
  "utf8_encode (a @ b) =
     (case utf8_encode a of Inl e \<Rightarrow> Inl e
      | Inr x \<Rightarrow> (case utf8_encode b of Inl e \<Rightarrow> Inl e | Inr y \<Rightarrow> Inr (x @ y)))"
  by (induction a) (auto split: sum.splits)

lemma utf8_encode_tag [simp]:
  "utf8_encode_char 0x30 = Inr [0x30]" "utf8_encode_char 0x31 = Inr [0x31]"
  by (simp_all add: utf8_encode_char_def)

lemma encode_tree_string: "encode_tree t = Inr bs \<Longrightarrow> utf8_encode (tree_string t) = Inr bs"
  by (induction t arbitrary: bs rule: encode_tree.induct)
     (auto simp: utf8_encode_append split: sum.splits)

lemma is_scalar_encode:
  "is_scalar c \<Longrightarrow> \<exists>bs. utf8_encode_char c = Inr bs \<and> length bs \<le> 4"
  by (auto simp: is_scalar_def utf8_encode_char_def)

lemma scalar_str_encode:
  "list_all is_scalar s \<Longrightarrow> \<exists>bs. utf8_encode s = Inr bs \<and> length bs \<le> 4 * length s"
proof (induction s)
  case Nil
  then show ?case by simp
next
  case (Cons c s)
  then obtain b1 b2 where "utf8_encode_char c = Inr b1" "length b1 \<le> 4"
      "utf8_encode s = Inr b2" "length b2 \<le> 4 * length s"
    using is_scalar_encode[of c] by auto
  then show ?case by simp
qed

lemma encode_tree_succeeds:
  "full_tree t \<Longrightarrow> \<forall>c\<in>set (leaves t). list_all is_scalar c \<Longrightarrow>
     \<exists>bs. encode_tree t = Inr bs \<and> Suc (length bs) \<le> 6 * length (leaves t)"
proof (induction t rule: full_tree.induct)
  case (1 c f l r cd)
  then obtain bl br where "encode_tree l = Inr bl" "Suc (length bl) \<le> 6 * length (leaves l)"
    "encode_tree r = Inr br" "Suc (length br) \<le> 6 * length (leaves r)"
    by auto
  then show ?case by simp
next
  case (2 c f cd)
  then obtain bs where "utf8_encode c = Inr bs" "length bs \<le> 4 * length c"
    using scalar_str_encode[of c] by auto
  with 2 show ?case by simp
qed simp_all

lemma decode_tree_string:
  "full_tree t \<Longrightarrow>
     \<exists>t'. decode_tree (tree_string t @ rest) = Inr (Some t', rest) \<and> same_shape t t'"
proof (induction t arbitrary: rest rule: full_tree.induct)
  case (1 c f l r cd)
  from 1 obtain l' where l: "decode_tree (tree_string l @ (tree_string r @ rest)) = Inr (Some l', tree_string r @ rest)"
    "same_shape l l'"
    by force
  from 1 obtain r' where r: "decode_tree (tree_string r @ rest) = Inr (Some r', rest)" "same_shape r r'"
    by force
  have "decode_tree (tree_string (HuffmanTreeNode c f (Some l) (Some r) cd) @ rest)
      = Inr (Some (new_node [] 0 (Some l') (Some r')), rest)"
    using l(1) r(1) by (subst decode_tree.simps) simp
  then show ?case using l(2) r(2) by (simp add: new_node_def)
next
  case (2 c f cd)
  then obtain x where c: "c = [x]" by (cases c) auto
  have "decode_tree (tree_string (HuffmanTreeNode c f None None cd) @ rest)
      = Inr (Some (new_node [x] 0 None None), rest)"
    by (subst decode_tree.simps) (simp add: c)
  then show ?case by (simp add: new_node_def c)
qed simp_all

lemma build_full_tree:
  assumes b: "build_huffman_tree freq_list = Inr (Some t)"
    and s: "\<forall>(f, c)\<in>set freq_list. length c = 1"
  shows "full_tree t \<and> mset (leaves t) = mset (map snd freq_list)"
proof -
  have ne: "freq_list \<noteq> []" using b by (auto simp: build_huffman_tree_def)
  from build_huffman_tree_invariant[of freq_list full_tree "\<lambda>t. mset (leaves t)", OF ne]
  obtain t' where "build_huffman_tree freq_list = Inr (Some t')" "full_tree t'"
    "mset (leaves t') = sum_list (map (\<lambda>(f, c). mset (leaves (new_node c f None None))) freq_list)"
    using s by (auto simp: merged_def new_node_def)
  moreover have "sum_list (map (\<lambda>(f, c). mset (leaves (new_node c f None None))) freq_list)
      = mset (map snd freq_list)"
    by (induction freq_list) (auto simp: new_node_def)
  ultimately show ?thesis using b by simp
qed

text \<open>
  C5.  Let a tree be built from a frequency list whose entries are single characters.
  Whenever \<open>_encode_tree\<close> returns bytes for it, decoding them as UTF-8 and running
  \<open>_decode_tree\<close> on the string consumes the whole string and gives a tree of the same
  shape with the same characters at its leaves; and \<open>_encode_tree\<close> does return bytes
  when the characters are Unicode scalar values.
\<close>

theorem tree_serialization_roundtrip:
  assumes "build_huffman_tree freq_list = Inr (Some t)"
    and "\<forall>(f, c)\<in>set freq_list. length c = 1"
  shows "(\<forall>bs. encode_tree t = Inr bs \<longrightarrow>
           (\<exists>tree_str t'. utf8_decode bs = Inr tree_str \<and>
              decode_tree tree_str = Inr (Some t', []) \<and> same_shape t t'))
       \<and> ((\<forall>(f, c)\<in>set freq_list. list_all is_scalar c) \<longrightarrow> (\<exists>bs. encode_tree t = Inr bs))"
proof -
  from build_full_tree[OF assms]
  have ft: "full_tree t" and lv: "mset (leaves t) = mset (map snd freq_list)"
    by simp_all
  have "\<exists>tree_str t'. utf8_decode bs = Inr tree_str \<and>
          decode_tree tree_str = Inr (Some t', []) \<and> same_shape t t'"
    if "encode_tree t = Inr bs" for bs
    using utf8_roundtrip[OF encode_tree_string[OF that]] decode_tree_string[OF ft, of "[]"]
    by simp
  moreover have "\<exists>bs. encode_tree t = Inr bs"
    if "\<forall>(f, c)\<in>set freq_list. list_all is_scalar c"
  proof -
    have "set (leaves t) = snd ` set freq_list" using mset_eq_setD[OF lv] by simp
    with that have "\<forall>c\<in>set (leaves t). list_all is_scalar c" by auto
    with encode_tree_succeeds[OF ft] show ?thesis by blast
  qed
  ultimately show ?thesis by blast
qed

theorem tree_serialization_roundtrip_witness:
  "build_huffman_tree [(2, [0xE9]), (1, [0x62])] = Inr (Some
      (HuffmanTreeNode [0x62, 0xE9] 3 (Some (HuffmanTreeNode [0x62] 1 None None []))
         (Some (HuffmanTreeNode [0xE9] 2 None None [])) []))
   \<and> encode_tree (HuffmanTreeNode [0x62, 0xE9] 3 (Some (HuffmanTreeNode [0x62] 1 None None []))
         (Some (HuffmanTreeNode [0xE9] 2 None None [])) [])
       = Inr [0x30, 0x31, 0x62, 0x31, 0xC3, 0xA9]
   \<and> (\<exists>tree_str t'. utf8_decode [0x30, 0x31, 0x62, 0x31, 0xC3, 0xA9] = Inr tree_str \<and>
          decode_tree tree_str = Inr (Some t', []) \<and>
          same_shape (HuffmanTreeNode [0x62, 0xE9] 3 (Some (HuffmanTreeNode [0x62] 1 None None []))
            (Some (HuffmanTreeNode [0xE9] 2 None None [])) []) t')"
proof -
  let ?t = "HuffmanTreeNode [0x62, 0xE9] 3 (Some (HuffmanTreeNode [0x62] 1 None None []))
         (Some (HuffmanTreeNode [0xE9] 2 None None [])) []"
  have b: "build_huffman_tree [(2, [0xE9]), (1, [0x62])] = Inr (Some ?t)" by code_simp
  have e: "encode_tree ?t = Inr [0x30, 0x31, 0x62, 0x31, 0xC3, 0xA9]" by code_simp
  have s: "\<forall>(f, c)\<in>set [(2::int, [0xE9::nat]), (1, [0x62])]. length c = 1" by simp
  from tree_serialization_roundtrip[OF b s] b e show ?thesis by simp
qed


section \<open>Bit accounting of the container\<close>

lemma from_bytes_foldl:
  "foldl (\<lambda>acc b. acc * 256 + uint b) a
      (map (\<lambda>i. word_of_int (n div 256 ^ i) :: byte) (rev [0..<len]))
     = a * 256 ^ len + n mod 256 ^ len"
proof (induction len arbitrary: a)
  case 0
  then show ?case by simp
next
  case (Suc len)
  have u: "uint (word_of_int (n div 256 ^ len) :: byte) = n div 256 ^ len mod 256"
    by (simp add: uint_word_of_int)
  have m: "n mod (256 ^ len * 256) = 256 ^ len * (n div 256 ^ len mod 256) + n mod 256 ^ len"
    by (rule zmod_zmult2_eq) simp
  let ?f = "\<lambda>acc (b::byte). acc * 256 + uint b"
  let ?g = "\<lambda>i. word_of_int (n div 256 ^ i) :: byte"
  have "foldl ?f a (map ?g (rev [0..<Suc len]))
      = foldl ?f (a * 256 + uint (?g len)) (map ?g (rev [0..<len]))"
    by simp
  also have "\<dots> = (a * 256 + uint (?g len)) * 256 ^ len + n mod 256 ^ len"
    by (rule Suc.IH)
  also have "\<dots> = a * 256 ^ Suc len + n mod 256 ^ Suc len"
    using m by (simp add: u algebra_simps)
  finally show ?case .
qed

lemma from_bytes_to_bytes:
  assumes "to_bytes n len = Inr bs"
  shows "from_bytes bs = n \<and> length bs = len"
proof -
  from assms have r: "0 \<le> n" "n < 256 ^ len"
    and bs: "bs = map (\<lambda>i. word_of_int (n div 256 ^ i)) (rev [0..<len])"
    by (auto simp: to_bytes_def split: if_splits)
  show ?thesis using r from_bytes_foldl[of 0 n len] by (simp add: from_bytes_def bs)
qed

lemma to_bytes_ok: "0 \<le> n \<Longrightarrow> n < 256 ^ len \<Longrightarrow> \<exists>bs. to_bytes n len = Inr bs"
  by (simp add: to_bytes_def)

lemma pack_bytes_length: "length (pack_bytes bits) = (length bits + 7) div 8"
proof (induction bits rule: pack_bytes.induct)
  case 1
  then show ?case by simp
next
  case (2 b bs)
  show ?case
  proof (cases "7 \<le> length bs")
    case True
    then have "length bs - 7 + 7 = length bs" by simp
    then show ?thesis using 2 by simp
  next
    case False
    then show ?thesis using 2 by simp
  qed
qed

lemma padbits_less: "padbits bits < 8"
  by (simp add: padbits_def)

lemma padded_length: "(n + (8 - n mod 8) mod 8) mod 8 = (0::nat)"
proof -
  define q r where "q = n div 8" and "r = n mod 8"
  have n: "n = 8 * q + r" and r: "r < 8" by (simp_all add: q_def r_def)
  show ?thesis
  proof (cases "r = 0")
    case True
    then show ?thesis using n by (simp add: r_def[symmetric])
  next
    case False
    then have "(8 - r) mod 8 = 8 - r" by simp
    moreover have "n + (8 - r) = 8 * (q + 1)" using n r by simp
    ultimately show ?thesis unfolding r_def[symmetric] by (simp only: mod_mult_self1_is_0)
  qed
qed

lemma tobytes_length: "8 * length (tobytes bits) = length bits + padbits bits"
proof -
  have m: "(length bits + padbits bits) mod 8 = 0" unfolding padbits_def by (rule padded_length)
  then obtain k where k: "length bits + padbits bits = 8 * k" by (auto simp: mod_eq_0_iff_dvd)
  have "length (tobytes bits) = (8 * k + 7) div 8"
    by (simp add: tobytes_def pack_bytes_length flip: k)
  also have "\<dots> = k" by simp
  finally show ?thesis using k by simp
qed

lemma encode_loop_ok:
  "\<forall>c\<in>set s. \<exists>b. codes [c] = Some (Some b) \<Longrightarrow>
     encode_loop s codes acc = Inr (acc @ encoded_bits codes s)"
  by (induction s arbitrary: acc) (auto simp: encoded_bits_def code_of_def)

lemma encode_tree_code_tree: "encode_tree (code_tree t cd') = encode_tree t"
  by (induction t arbitrary: cd' rule: encode_tree.induct) (auto split: sum.splits)

lemma leaf_codes_leaves: "map fst (leaf_codes t p) = leaves t"
  by (induction t p rule: leaf_codes.induct) simp_all

lemma foldl_put_code_dom:
  "k \<in> fst ` set xs \<Longrightarrow> \<exists>b. foldl put_code m xs k = Some (Some b)"
proof (induction xs arbitrary: m rule: rev_induct)
  case Nil
  then show ?case by simp
next
  case (snoc x xs)
  obtain c b where x: "x = (c, b)" by (cases x)
  show ?case using snoc by (cases "k = c") (auto simp: x)
qed

lemma get_codes_total:
  "k \<in> set (leaves t) \<Longrightarrow> \<exists>b. snd (get_codes t) k = Some (Some b)"
  using foldl_put_code_dom[of k "leaf_codes t []" Map.empty] leaf_codes_leaves[of t "[]"]
  by (simp add: get_codes_def Let_def traverse_leaf_codes leaf_codes_code_tree)
     (metis image_set)

lemma seek_start [simp]:
  "seek (open_stream T) 0 = open_stream T"
  "seek \<lparr>content = T, position = n\<rparr> 0 = open_stream T"
  by (simp_all add: seek_def open_stream_def)

lemma count_frequencies_stream [simp]:
  "count_frequencies (open_stream T) = (freq_table T, \<lparr>content = T, position = length T\<rparr>)"
  by (simp add: freq_table_def count_frequencies_def Let_def open_stream_def read_all_def)

lemma encode_text_stream [simp]:
  "encode_text (open_stream T) codes = encode_loop T codes []"
  by (simp add: encode_text_def open_stream_def)

lemma compress_body_unfold:
  "compress_body (open_stream T) out0 =
     (case build_huffman_tree (freq_table T) of
        Inl e \<Rightarrow> (Inl e, out0)
      | Inr None \<Rightarrow> (Inr (), out0)
      | Inr (Some t) \<Rightarrow>
          (case encode_loop T (snd (get_codes t)) [] of
             Inl e \<Rightarrow> (Inl e, out0)
           | Inr encoded_text \<Rightarrow>
               (case encode_tree t of
                  Inl e \<Rightarrow> (Inl e, out0)
                | Inr encoded_tree \<Rightarrow>
                    (case to_bytes (int (length encoded_tree)) 8 of
                       Inl e \<Rightarrow> (Inl e, out0)
                     | Inr tree_len_info \<Rightarrow>
                         (case to_bytes (int (padbits encoded_text)) 8 of
                            Inl e \<Rightarrow> (Inl e, out0)
                          | Inr padding_len_info \<Rightarrow>
                              (Inr (), out0 @ padding_len_info @ tree_len_info @ encoded_tree
                                 @ tobytes encoded_text))))))"
  by (simp add: compress_body_def Let_def get_codes_def encode_tree_code_tree
      split: sum.splits option.splits)

lemma freq_table_length: "length (freq_table T) = card (set T)"
proof -
  have "length (freq_table T) = length (map snd (freq_table T))" by simp
  also have "\<dots> = card (set (map snd (freq_table T)))"
    using freq_table_distinct[of T] by (simp only: distinct_card)
  also have "\<dots> = card ((\<lambda>c. [c]) ` set T)" using freq_table_keys[of T] by simp
  also have "\<dots> = card (set T)" by (rule card_image) (simp add: inj_on_def)
  finally show ?thesis .
qed

lemma scalar_card: "list_all is_scalar T \<Longrightarrow> card (set T) \<le> 0x110000"
proof -
  assume "list_all is_scalar T"
  then have "set T \<subseteq> {..<0x110000}" by (auto simp: list_all_iff is_scalar_def)
  then have "card (set T) \<le> card {..<(0x110000::nat)}" by (intro card_mono) simp_all
  then show ?thesis by simp
qed

lemma build_text_tree:
  assumes "T \<noteq> []"
  shows "\<exists>t. build_huffman_tree (freq_table T) = Inr (Some t) \<and> full_tree t
           \<and> set (leaves t) = (\<lambda>c. [c]) ` set T \<and> length (leaves t) = card (set T)"
proof -
  have ne: "freq_table T \<noteq> []" using freq_table_keys[of T] assms by auto
  have single: "\<forall>(f, c)\<in>set (freq_table T). length c = 1"
    using freq_table_entry[of _ _ T] by fastforce
  from build_huffman_tree_invariant[of "freq_table T" "\<lambda>t. True" "\<lambda>t. 0::nat", OF ne]
  obtain t where t: "build_huffman_tree (freq_table T) = Inr (Some t)" by auto
  from build_full_tree[OF t single]
  have ft: "full_tree t" and lv: "mset (leaves t) = mset (map snd (freq_table T))" by simp_all
  have "set (leaves t) = snd ` set (freq_table T)" using mset_eq_setD[OF lv] by simp
  moreover have "length (leaves t) = length (freq_table T)"
    using arg_cong[OF lv, of size] by simp
  ultimately show ?thesis using t ft freq_table_keys[of T] freq_table_length[of T] by auto
qed

lemma compress_result:
  "compress text_in bin_out = (Inr u, out) \<longleftrightarrow> compress_body text_in bin_out = (Inr u, out)"
  by (auto simp: compress_def split: prod.splits sum.splits error.splits)

lemma header_fields:
  assumes "length p = 8" "length l = 8" "from_bytes l = int (length tr)"
  shows "padding_length_field (p @ l @ tr @ pl) = from_bytes p"
    and "tree_length_field (p @ l @ tr @ pl) = int (length tr)"
    and "payload (p @ l @ tr @ pl) = pl"
  using assms by (simp_all add: padding_length_field_def tree_length_field_def payload_def)

text \<open>
  C6.  For a non-empty text, whenever \<open>compress\<close> returns, eight times the number of
  payload bytes minus the padding length stored in the header is the number of bits of
  the concatenated codes of the characters of the text, every one of which has a code;
  and \<open>compress\<close> does return when the characters are Unicode scalar values.
\<close>

theorem header_bit_accounting:
  assumes ne: "T \<noteq> []"
  shows "(\<forall>out. compress (open_stream T) [] = (Inr (), out) \<longrightarrow>
            8 * int (length (payload out)) - padding_length_field out
              = int (length (encoded_bits (code_table T) T))
            \<and> (\<forall>c\<in>set T. \<exists>b. code_table T [c] = Some (Some b)))
       \<and> (list_all is_scalar T \<longrightarrow> (\<exists>out. compress (open_stream T) [] = (Inr (), out)))"
proof -
  from build_text_tree[OF ne] obtain t where
    t: "build_huffman_tree (freq_table T) = Inr (Some t)" and ft: "full_tree t"
    and lv: "set (leaves t) = (\<lambda>c. [c]) ` set T" and ll: "length (leaves t) = card (set T)"
    by blast
  have ct: "code_table T = snd (get_codes t)" by (simp add: code_table_def t)
  have total: "\<forall>c\<in>set T. \<exists>b. code_table T [c] = Some (Some b)"
    using get_codes_total[of _ t] lv by (auto simp: ct)
  have enc: "encode_loop T (snd (get_codes t)) [] = Inr (encoded_bits (code_table T) T)"
    using encode_loop_ok[OF total, of "[]"] by (simp add: ct)
  have body: "compress_body (open_stream T) [] =
      (case encode_tree t of
         Inl e \<Rightarrow> (Inl e, [])
       | Inr encoded_tree \<Rightarrow>
           (case to_bytes (int (length encoded_tree)) 8 of
              Inl e \<Rightarrow> (Inl e, [])
            | Inr tree_len_info \<Rightarrow>
                (case to_bytes (int (padbits (encoded_bits (code_table T) T))) 8 of
                   Inl e \<Rightarrow> (Inl e, [])
                 | Inr padding_len_info \<Rightarrow>
                     (Inr (), padding_len_info @ tree_len_info @ encoded_tree
                        @ tobytes (encoded_bits (code_table T) T)))))"
    by (simp add: compress_body_unfold t enc split: sum.splits)
  have part1: "8 * int (length (payload out)) - padding_length_field out
              = int (length (encoded_bits (code_table T) T))"
    if c: "compress (open_stream T) [] = (Inr (), out)" for out
  proof -
    let ?bits = "encoded_bits (code_table T) T"
    from c have "compress_body (open_stream T) [] = (Inr (), out)" by (simp add: compress_result)
    then obtain tr l p where tr: "encode_tree t = Inr tr"
      and l: "to_bytes (int (length tr)) 8 = Inr l"
      and p: "to_bytes (int (padbits ?bits)) 8 = Inr p"
      and out: "out = p @ l @ tr @ tobytes ?bits"
      unfolding body by (auto split: sum.splits)
    from from_bytes_to_bytes[OF l] from_bytes_to_bytes[OF p]
    have f: "length p = 8" "length l = 8" "from_bytes l = int (length tr)"
      "from_bytes p = int (padbits ?bits)" by simp_all
    have "8 * int (length (tobytes ?bits)) = int (length ?bits) + int (padbits ?bits)"
      using tobytes_length[of ?bits] by (simp flip: of_nat_add of_nat_mult)
    then show ?thesis
      unfolding out header_fields[OF f(1,2,3)] f(4) by simp
  qed
  have part2: "\<exists>out. compress (open_stream T) [] = (Inr (), out)" if sc: "list_all is_scalar T"
  proof -
    let ?bits = "encoded_bits (code_table T) T"
    have "\<forall>c\<in>set (leaves t). list_all is_scalar c"
      using sc lv by (auto simp: list_all_iff)
    from encode_tree_succeeds[OF ft this] obtain tr where
      tr: "encode_tree t = Inr tr" and len: "Suc (length tr) \<le> 6 * length (leaves t)" by blast
    have "length tr < 6 * 0x110000" using len ll scalar_card[OF sc] by simp
    then have "int (length tr) < 256 ^ 8" by simp
    then obtain l where l: "to_bytes (int (length tr)) 8 = Inr l"
      using to_bytes_ok[of "int (length tr)" 8] by auto
    have "int (padbits ?bits) < 256 ^ 8" using padbits_less[of ?bits] by simp
    then obtain p where p: "to_bytes (int (padbits ?bits)) 8 = Inr p"
      using to_bytes_ok[of "int (padbits ?bits)" 8] by auto
    have "compress_body (open_stream T) [] = (Inr (), p @ l @ tr @ tobytes ?bits)"
      unfolding body by (simp add: tr l p)
    then show ?thesis by (auto simp: compress_result)
  qed
  show ?thesis using part1 part2 total by blast
qed

theorem header_bit_accounting_witness:
  "compress (open_stream [97, 97, 97, 97, 98, 98, 98, 99, 99, 100]) [] =
     (Inr (), [0, 0, 0, 0, 0, 0, 0, 5, 0, 0, 0, 0, 0, 0, 0, 11,
               48, 49, 97, 48, 49, 98, 48, 49, 100, 49, 99, 10, 191, 192])
   \<and> 8 * int (length (payload [0, 0, 0, 0, 0, 0, 0, 5, 0, 0, 0, 0, 0, 0, 0, 11,
               48, 49, 97, 48, 49, 98, 48, 49, 100, 49, 99, 10, 191, 192]))
       - padding_length_field [0, 0, 0, 0, 0, 0, 0, 5, 0, 0, 0, 0, 0, 0, 0, 11,
               48, 49, 97, 48, 49, 98, 48, 49, 100, 49, 99, 10, 191, 192]
     = int (length (encoded_bits (code_table [97, 97, 97, 97, 98, 98, 98, 99, 99, 100])
                      [97, 97, 97, 97, 98, 98, 98, 99, 99, 100]))"
proof -
  have c: "compress (open_stream [97, 97, 97, 97, 98, 98, 98, 99, 99, 100]) [] =
     (Inr (), [0, 0, 0, 0, 0, 0, 0, 5, 0, 0, 0, 0, 0, 0, 0, 11,
               48, 49, 97, 48, 49, 98, 48, 49, 100, 49, 99, 10, 191, 192])"
    by code_simp
  from header_bit_accounting[of "[97, 97, 97, 97, 98, 98, 98, 99, 99, 100]"] c
  show ?thesis by simp
qed

section \<open>Packing bits into bytes and back\<close>

lemma bits_of_byte_of_bits: "length bs = 8 \<Longrightarrow> bits_of_byte (byte_of_bits bs) = bs"
proof -
  assume l: "length bs = 8"
  have "map (bit (horner_sum of_bool 2 (rev bs) :: byte)) [0..<8] = rev bs"
    using l by (simp add: list_eq_iff_nth_eq bit_horner_sum_bit_word_iff)
  then show ?thesis by (simp add: bits_of_byte_def byte_of_bits_def)
qed

lemma frombytes_pack_bytes: "length bits mod 8 = 0 \<Longrightarrow> frombytes (pack_bytes bits) = bits"
proof (induction bits rule: pack_bytes.induct)
  case 1
  then show ?case by (simp add: frombytes_def)
next
  case (2 b bs)
  from "2.prems" have "8 dvd Suc (length bs)" by (simp add: mod_eq_0_iff_dvd)
  then obtain k where k: "Suc (length bs) = 8 * k" by (auto simp: dvd_def)
  then have k1: "1 \<le> k" by (cases k) auto
  have l7: "7 \<le> length bs" using k k1 by linarith
  then have l8: "length (take 8 (b # bs)) = 8" by simp
  have "length (drop 7 bs) = length bs - 7" by simp
  also have "\<dots> = 8 * (k - 1)" using k k1 by linarith
  finally have "length (drop 7 bs) = 8 * (k - 1)" .
  then have r: "frombytes (pack_bytes (drop 7 bs)) = drop 7 bs" by (intro "2.IH") simp
  have "frombytes (pack_bytes (b # bs)) = take 8 (b # bs) @ drop 7 bs"
    using r bits_of_byte_of_bits[OF l8] by (simp add: frombytes_def)
  also have "\<dots> = b # bs" by (simp add: take_Suc_conv_app_nth[symmetric] numeral_eq_Suc)
  finally show ?case .
qed

lemma frombytes_tobytes: "frombytes (tobytes bits) = bits @ replicate (padbits bits) False"
  unfolding tobytes_def
  by (rule frombytes_pack_bytes) (simp add: padbits_def padded_length)

section \<open>Decoding the encoded text\<close>

lemma full_tree_cases:
  assumes "full_tree n"
  shows "(left n = None \<and> right n = None \<and> leaf_codes n p = [(char n, p)] \<and> length (char n) = 1)
       \<or> (\<exists>l r. left n = Some l \<and> right n = Some r \<and> full_tree l \<and> full_tree r)"
  using assms by (cases n rule: full_tree.cases) auto

lemma decode_walk:
  "full_tree n \<Longrightarrow> left n \<noteq> None \<Longrightarrow> (c, p @ q) \<in> set (leaf_codes n p) \<Longrightarrow>
     decode_text_loop (q @ rest) root n res = decode_text_loop rest root root (res @ [c])"
proof (induction n p arbitrary: q rule: leaf_codes.induct)
  case (1 c0 f l r cd p)
  let ?n = "HuffmanTreeNode c0 f (Some l) (Some r) cd"
  from "1.prems"(1) have fl: "full_tree l" and fr: "full_tree r" by simp_all
  from "1.prems"(3) consider
      (L) "(c, p @ q) \<in> set (leaf_codes l (p @ [False]))"
    | (R) "(c, p @ q) \<in> set (leaf_codes r (p @ [True]))"
    by auto
  then show ?case
  proof cases
    case L
    from leaf_codes_prefix[OF L] obtain q' where q: "q = False # q'"
      by (auto simp: prefix_def)
    have m: "(c, (p @ [False]) @ q') \<in> set (leaf_codes l (p @ [False]))" using L q by simp
    from full_tree_cases[OF fl, of "p @ [False]"] show ?thesis
    proof
      assume a: "left l = None \<and> right l = None \<and> leaf_codes l (p @ [False]) = [(char l, p @ [False])]
          \<and> length (char l) = 1"
      with m have "c = char l" "q' = []" by simp_all
      then show ?thesis using a by (simp add: q)
    next
      assume "\<exists>l' r'. left l = Some l' \<and> right l = Some r' \<and> full_tree l' \<and> full_tree r'"
      then have nl: "left l \<noteq> None" by auto
      from "1.IH"(1)[OF fl nl m] show ?thesis using nl by (auto simp: q)
    qed
  next
    case R
    from leaf_codes_prefix[OF R] obtain q' where q: "q = True # q'"
      by (auto simp: prefix_def)
    have m: "(c, (p @ [True]) @ q') \<in> set (leaf_codes r (p @ [True]))" using R q by simp
    from full_tree_cases[OF fr, of "p @ [True]"] show ?thesis
    proof
      assume a: "left r = None \<and> right r = None \<and> leaf_codes r (p @ [True]) = [(char r, p @ [True])]
          \<and> length (char r) = 1"
      with m have "c = char r" "q' = []" by simp_all
      then show ?thesis using a by (simp add: q)
    next
      assume "\<exists>l' r'. left r = Some l' \<and> right r = Some r' \<and> full_tree l' \<and> full_tree r'"
      then have nl: "left r \<noteq> None" by auto
      from "1.IH"(2)[OF fr nl m] show ?thesis using nl by (auto simp: q)
    qed
  qed
qed auto

lemma decode_encoded_bits:
  assumes ft: "full_tree t" and nl: "left t \<noteq> None"
  shows "\<forall>c\<in>set s. \<exists>b. codes [c] = Some (Some b) \<and> ([c], b) \<in> set (leaf_codes t []) \<Longrightarrow>
     decode_text_loop (encoded_bits codes s) t t res = res @ map (\<lambda>c. [c]) s"
proof (induction s arbitrary: res)
  case Nil
  then show ?case by (simp add: encoded_bits_def)
next
  case (Cons c s)
  then obtain b where b: "codes [c] = Some (Some b)" "([c], [] @ b) \<in> set (leaf_codes t [])"
    by auto
  have "encoded_bits codes (c # s) = b @ encoded_bits codes s"
    by (simp add: encoded_bits_def code_of_def b)
  then show ?case
    using decode_walk[OF ft nl b(2), of "encoded_bits codes s" t res] Cons by simp
qed

lemma same_shape_props:
  "same_shape t t' \<Longrightarrow> leaf_codes t' p = leaf_codes t p \<and> (full_tree t \<longrightarrow> full_tree t')
      \<and> (left t \<noteq> None \<longrightarrow> left t' \<noteq> None)"
  by (induction t t' arbitrary: p rule: same_shape.induct) auto

lemma concat_singletons: "concat (map (\<lambda>c. [c]) s) = s"
  by (induction s) simp_all

section \<open>Compressing and then decompressing\<close>

lemma read_headers_container:
  assumes "length p = 8" "length l = 8" "from_bytes p = int pad" "pad < 8"
    "from_bytes l = int (length tr)"
  shows "read_headers (open_stream (p @ l @ tr @ pl)) =
     Inr ((int pad, int (length tr)), \<lparr>content = p @ l @ tr @ pl, position = 16\<rparr>)"
  using assms
  by (simp add: read_headers_def open_stream_def read_n_def read_all_def seek_def Let_def)

lemma decompress_container:
  assumes "length p = 8" "length l = 8" "from_bytes p = int pad" "pad < 8"
    "from_bytes l = int (length tr)"
  shows "decompress (open_stream (p @ l @ tr @ pl)) text_out =
     (case utf8_decode tr of
        Inl e \<Rightarrow> (Inl e, text_out)
      | Inr tree_str \<Rightarrow>
          (case decode tree_str
                  (if pad > 0 then take (length (frombytes pl) - pad) (frombytes pl)
                   else frombytes pl) of
             Inl e \<Rightarrow> (Inl e, text_out)
           | Inr d \<Rightarrow> (Inr (), text_out @ d)))"
  using assms
  by (simp add: decompress_def read_headers_container[OF assms] read_n_def read_all_def Let_def
      split: sum.splits)

lemma compress_then_decompress:
  assumes ne: "T \<noteq> []" and sc: "list_all is_scalar T"
  shows "\<exists>out t t'. build_huffman_tree (freq_table T) = Inr (Some t) \<and> full_tree t
           \<and> length (leaves t) = card (set T) \<and> same_shape t t'
           \<and> compress (open_stream T) [] = (Inr (), out)
           \<and> (\<forall>text_out. decompress (open_stream out) text_out =
                 (Inr (), text_out @ decode_text (encoded_bits (code_table T) T) t'))"
proof -
  from build_text_tree[OF ne] obtain t where
    t: "build_huffman_tree (freq_table T) = Inr (Some t)" and ft: "full_tree t"
    and lv: "set (leaves t) = (\<lambda>c. [c]) ` set T" and ll: "length (leaves t) = card (set T)"
    by blast
  let ?codes = "code_table T"
  let ?bits = "encoded_bits ?codes T"
  have ct: "?codes = snd (get_codes t)" by (simp add: code_table_def t)
  have total: "\<forall>c\<in>set T. \<exists>b. ?codes [c] = Some (Some b)"
    using get_codes_total[of _ t] lv by (auto simp: ct)
  have enc: "encode_loop T (snd (get_codes t)) [] = Inr ?bits"
    using encode_loop_ok[OF total, of "[]"] by (simp add: ct)
  have "\<forall>c\<in>set (leaves t). list_all is_scalar c" using sc lv by (auto simp: list_all_iff)
  from encode_tree_succeeds[OF ft this] obtain tr where
    tr: "encode_tree t = Inr tr" and len: "Suc (length tr) \<le> 6 * length (leaves t)" by blast
  have "length tr < 6 * 0x110000" using len ll scalar_card[OF sc] by simp
  then have "int (length tr) < 256 ^ 8" by simp
  then obtain l where l: "to_bytes (int (length tr)) 8 = Inr l"
    using to_bytes_ok[of "int (length tr)" 8] by auto
  have "int (padbits ?bits) < 256 ^ 8" using padbits_less[of ?bits] by simp
  then obtain p where p: "to_bytes (int (padbits ?bits)) 8 = Inr p"
    using to_bytes_ok[of "int (padbits ?bits)" 8] by auto
  let ?out = "p @ l @ tr @ tobytes ?bits"
  have "compress_body (open_stream T) [] = (Inr (), ?out)"
    by (simp add: compress_body_unfold t enc tr l p)
  then have c: "compress (open_stream T) [] = (Inr (), ?out)" by (simp add: compress_result)
  from from_bytes_to_bytes[OF l] from_bytes_to_bytes[OF p]
  have f: "length p = 8" "length l = 8" "from_bytes p = int (padbits ?bits)"
    "from_bytes l = int (length tr)" by simp_all
  have ts: "utf8_decode tr = Inr (tree_string t)"
    by (rule utf8_roundtrip[OF encode_tree_string[OF tr]])
  from decode_tree_string[OF ft, of "[]"] obtain t' where
    t': "decode_tree (tree_string t) = Inr (Some t', [])" "same_shape t t'" by auto
  have d: "decode (tree_string t) ?bits = Inr (decode_text ?bits t')"
    by (simp add: decode_def t'(1))
  have strip: "(if padbits ?bits > 0
        then take (length (frombytes (tobytes ?bits)) - padbits ?bits) (frombytes (tobytes ?bits))
        else frombytes (tobytes ?bits)) = ?bits"
    by (simp add: frombytes_tobytes)
  have "decompress (open_stream ?out) text_out = (Inr (), text_out @ decode_text ?bits t')"
    for text_out
    unfolding decompress_container[OF f(1,2,3) padbits_less f(4)] ts strip by (simp add: d)
  with c t ft ll t'(2) show ?thesis by blast
qed

lemma single_char_freq_table:
  assumes "T \<noteq> []" "set T = {c}"
  shows "freq_table T = [(int (length T), [c])]"
proof -
  have "length (freq_table T) = 1" using assms by (simp add: freq_table_length)
  then obtain f s where fs: "freq_table T = [(f, s)]"
    by (cases "freq_table T") (auto simp: length_Suc_conv)
  have "s = [c]" using freq_table_keys[of T] assms by (simp add: fs)
  moreover have "f = int (length T)" using freq_table_sum[of T] by (simp add: fs)
  ultimately show ?thesis by (simp add: fs)
qed

lemma build_single: "build_huffman_tree [(f, c)] = Inr (Some (HuffmanTreeNode c f None None []))"
  by (simp add: build_huffman_tree_def heappush_def siftdown_def siftdown_loop.simps
      merge_trees.simps heappop_def new_node_def Let_def)

lemma single_char_tree:
  assumes "T \<noteq> []" "set T = {c}"
  shows "build_huffman_tree (freq_table T) =
           Inr (Some (HuffmanTreeNode [c] (int (length T)) None None []))"
    and "code_table T [c] = Some (Some [])"
  using assms
  by (simp_all add: code_table_def single_char_freq_table build_single get_codes_def Let_def)

lemma single_char_bits:
  assumes "T \<noteq> []" "set T = {c}"
  shows "encoded_bits (code_table T) T = []"
  using single_char_tree(2)[OF assms] assms(2)
  by (auto simp: encoded_bits_def code_of_def)

text \<open>
  C2.  The code table of a text with exactly one distinct character is required to
  give that character a code of at least one bit.  It does not: the tree is a single
  leaf, \<open>traverse\<close> stores the path from the root to it, and that path is empty.
\<close>

theorem single_character_code_is_empty:
  assumes "T \<noteq> []" "set T = {c}"
  shows "build_huffman_tree (freq_table T) =
           Inr (Some (HuffmanTreeNode [c] (int (length T)) None None []))
      \<and> snd (get_codes (HuffmanTreeNode [c] (int (length T)) None None [])) [c] = Some (Some [])
      \<and> length (code_of (code_table T) [c]) = 0"
  using single_char_tree[OF assms]
  by (simp add: get_codes_def Let_def code_of_def)

theorem single_character_code_is_empty_witness:
  "build_huffman_tree (freq_table [97, 97, 97, 97]) =
      Inr (Some (HuffmanTreeNode [97] 4 None None []))
   \<and> snd (get_codes (HuffmanTreeNode [97] 4 None None [])) [97] = Some (Some [])
   \<and> length (code_of (code_table [97, 97, 97, 97]) [97]) = 0"
  using single_character_code_is_empty[of "[97, 97, 97, 97]" 97] by simp

text \<open>
  C1.  Compressing a text and decompressing the result is required to give the text
  back, also for the empty text and for a text of one repeated character.  For a text
  of one repeated character \<open>compress\<close> writes a header, the one-leaf tree and no
  payload, and \<open>decompress\<close> of that output writes nothing: the text is lost.  For the
  empty text \<open>compress\<close> writes nothing at all, and \<open>decompress\<close> of the empty stream
  raises \<open>ValueError\<close>.
\<close>

theorem single_character_text_is_lost:
  assumes "T \<noteq> []" "set T = {c}" "is_scalar c"
  shows "\<exists>out. compress (open_stream T) [] = (Inr (), out)
           \<and> decompress (open_stream out) text_out = (Inr (), text_out)"
proof -
  have sc: "list_all is_scalar T" using assms by (simp add: list_all_iff)
  from compress_then_decompress[OF assms(1) sc] single_char_bits[OF assms(1,2)]
  show ?thesis by (auto simp: decode_text_def)
qed

theorem single_character_text_is_lost_witness:
  "compress (open_stream [97, 97, 97, 97]) [] =
      (Inr (), [0, 0, 0, 0, 0, 0, 0, 0, 0, 0, 0, 0, 0, 0, 0, 2, 49, 97])
   \<and> decompress (open_stream [0, 0, 0, 0, 0, 0, 0, 0, 0, 0, 0, 0, 0, 0, 0, 2, 49, 97]) [] =
      (Inr (), [])
   \<and> compress (open_stream []) [] = (Inr (), [])
   \<and> decompress (open_stream []) [] = (Inl (ValueError ''Invalid tree string''), [])"
proof -
  have c: "compress (open_stream [97, 97, 97, 97]) [] =
      (Inr (), [0, 0, 0, 0, 0, 0, 0, 0, 0, 0, 0, 0, 0, 0, 0, 2, 49, 97])"
    by code_simp
  have s: "is_scalar 97" by (simp add: is_scalar_def)
  have e: "compress (open_stream []) [] = (Inr (), [])
      \<and> decompress (open_stream []) [] = (Inl (ValueError ''Invalid tree string''), [])"
    by code_simp
  from single_character_text_is_lost[of "[97, 97, 97, 97]" 97 "[]"] s c e
  show ?thesis by simp
qed

text \<open>
  X1.  The round trip does hold for every text with at least two distinct characters, all
  of them Unicode scalar values: \<open>compress\<close> returns, and \<open>decompress\<close> of its output
  appends exactly the text to the text output.
\<close>

theorem compress_decompress_roundtrip:
  assumes two: "2 \<le> card (set T)" and sc: "list_all is_scalar T"
  shows "\<exists>out. compress (open_stream T) [] = (Inr (), out)
           \<and> decompress (open_stream out) text_out = (Inr (), text_out @ T)"
proof -
  have ne: "T \<noteq> []" using two by auto
  from compress_then_decompress[OF ne sc] obtain out t t' where
    t: "build_huffman_tree (freq_table T) = Inr (Some t)" and ft: "full_tree t"
    and ll: "length (leaves t) = card (set T)" and sh: "same_shape t t'"
    and c: "compress (open_stream T) [] = (Inr (), out)"
    and d: "decompress (open_stream out) text_out =
                 (Inr (), text_out @ decode_text (encoded_bits (code_table T) T) t')"
    by blast
  have ct: "code_table T = snd (get_codes t)" by (simp add: code_table_def t)
  have nl: "left t \<noteq> None"
    using full_tree_cases[OF ft, of "[]"] ll two leaf_codes_leaves[of t "[]"]
    by (auto dest: arg_cong[where f=length])
  from build_text_tree[OF ne] t have lv: "set (leaves t) = (\<lambda>c. [c]) ` set T" by auto
  have total: "\<forall>c\<in>set T. \<exists>b. code_table T [c] = Some (Some b)"
    using get_codes_total[of _ t] lv by (auto simp: ct)
  from same_shape_props[OF sh, of "[]"] ft nl
  have p': "leaf_codes t' [] = leaf_codes t []" "full_tree t'" "left t' \<noteq> None" by simp_all
  have "\<forall>c\<in>set T. \<exists>b. code_table T [c] = Some (Some b) \<and> ([c], b) \<in> set (leaf_codes t' [])"
    using total get_codes_leaf_codes[of t] by (auto simp: ct p'(1))
  from decode_encoded_bits[OF p'(2,3) this, of "[]"]
  have "decode_text (encoded_bits (code_table T) T) t' = T"
    by (simp add: decode_text_def concat_singletons)
  with c d show ?thesis by auto
qed

theorem compress_decompress_roundtrip_witness:
  "compress (open_stream [97, 97, 97, 97, 98, 98, 98, 99, 99, 100]) [] =
     (Inr (), [0, 0, 0, 0, 0, 0, 0, 5, 0, 0, 0, 0, 0, 0, 0, 11,
               48, 49, 97, 48, 49, 98, 48, 49, 100, 49, 99, 10, 191, 192])
   \<and> decompress (open_stream [0, 0, 0, 0, 0, 0, 0, 5, 0, 0, 0, 0, 0, 0, 0, 11,
               48, 49, 97, 48, 49, 98, 48, 49, 100, 49, 99, 10, 191, 192]) []
     = (Inr (), [97, 97, 97, 97, 98, 98, 98, 99, 99, 100])"
proof -
  have c: "compress (open_stream [97, 97, 97, 97, 98, 98, 98, 99, 99, 100]) [] =
     (Inr (), [0, 0, 0, 0, 0, 0, 0, 5, 0, 0, 0, 0, 0, 0, 0, 11,
               48, 49, 97, 48, 49, 98, 48, 49, 100, 49, 99, 10, 191, 192])"
    by code_simp
  have k: "2 \<le> card (set [97, 97, 97, 97, 98, 98, 98, 99, 99, 100::nat])" by simp
  have s: "list_all is_scalar [97, 97, 97, 97, 98, 98, 98, 99, 99, 100]"
    by (simp add: is_scalar_def)
  from compress_decompress_roundtrip[OF k s, of "[]"] c show ?thesis by simp
qed

text \<open>
  X2.  The text \<open>"aaaabbbccd"\<close>: the frequencies are 4, 3, 2 and 1, the codes of \<open>a\<close> and
  \<open>b\<close> are no longer than those of \<open>c\<close> and \<open>d\<close>, and the encoded text has 19 bits,
  fewer than the 80 bits of the text.
\<close>

theorem skewed_text_example:
  "freq_table [97, 97, 97, 97, 98, 98, 98, 99, 99, 100] =
     [(4, [97]), (3, [98]), (2, [99]), (1, [100])]
   \<and> map (\<lambda>c. code_table [97, 97, 97, 97, 98, 98, 98, 99, 99, 100] [c]) [97, 98, 99, 100] =
     [Some (Some [False]), Some (Some [True, False]), Some (Some [True, True, True]),
      Some (Some [True, True, False])]
   \<and> length (encoded_bits (code_table [97, 97, 97, 97, 98, 98, 98, 99, 99, 100])
        [97, 97, 97, 97, 98, 98, 98, 99, 99, 100]) = 19"
  by code_simp

end
